theory Spec2Isabelle
  imports Main "HOL-Library.Word"
begin

section \<open>Data model (nos\_response.go, nos\_request.go, the Multi declaration)\<close>

text \<open>
  Go's \<open>[]byte\<close> is a list of 8-bit words, \<open>int32\<close> and \<open>int64\<close> are words of
  that width (arithmetic wraps, \<open>sint\<close> reads the signed value). Go's \<open>int\<close> is taken
  as 64 bits wide. Only the fields the driver reads or writes are kept; the XML name,
  owner and storage-class fields of the response structs play no part in it.
\<close>

type_synonym byte = "8 word"
type_synonym int32 = "32 word"
type_synonym int64 = "64 word"
type_synonym go_int = "64 word"

text \<open>
  An \<open>error\<close> of the client is \<open>errors.New(s)\<close> (or a transport error with a
  message); the driver adds \<open>storagedriver.PathNotFoundError{Path}\<close>.
\<close>

datatype error = Err string | PathNotFoundError string

record Multi =
  Multi_Key :: string
  Multi_UploadId :: int64

record Upload =
  Upload_Key :: string
  Upload_UploadId :: int64

record InitMultiUploadResult =
  Init_Bucket :: string
  Init_Object :: string
  Init_UploadId :: int64

record UploadPart =
  Part_PartNumber :: int32
  Part_Etag :: string
  Part_Size :: int64

record UploadPartRet =
  PartNumber :: go_int
  LastModified :: string
  Etag :: string
  Size :: go_int

record ListPartsResult =
  NextPartNumberMarker :: go_int
  Parts_IsTruncated :: bool
  Parts :: "UploadPartRet list"

record ListMultiResult =
  NextKeyMarker :: string
  Uploads :: "Upload list"
  IsTruncated :: bool

definition newMulti :: "Upload \<Rightarrow> Multi" where
  "newMulti upload = \<lparr>Multi_Key = Upload_Key upload, Multi_UploadId = Upload_UploadId upload\<rparr>"

definition initMulti :: "InitMultiUploadResult \<Rightarrow> Multi" where
  "initMulti result = \<lparr>Multi_Key = Init_Object result, Multi_UploadId = Init_UploadId result\<rparr>"


section \<open>The object store behind the client\<close>

text \<open>
  Every method of \<open>NosClient\<close> that makes one HTTP round trip is a request sent to the
  store and an answer read back. The requests sent so far are kept in a log, oldest
  first; the store is any function from the log (whose last entry is the request being
  answered) to an answer, so that it may answer differently each time. A request holds
  what the method puts on the wire: \<open>ListUploadParts\<close> sends the upload id only (its
  \<open>maxParts\<close> and \<open>marker\<close> arguments are not used), \<open>ListMultiResult\<close> sends the
  key marker.
\<close>

datatype call =
    GetObjectCall string string
  | GetObjectRangeCall string string string
  | InitMultiUploadCall string string
  | UploadPartCall string string int64 int32 "byte list"
  | CompleteMultiUploadCall string string int64 "UploadPart list"
  | AbortMultiUploadCall string string int64
  | ListUploadPartsCall string string int64
  | ListMultiResultCall string string

text \<open>
  \<open>do_UploadPart\<close> answers with the \<open>Etag\<close> header of a 200 response;
  \<open>do_Read\<close> is the number of bytes the store has ready when the body of the last
  response is read for the first time.
\<close>

record backend =
  do_GetObject :: "call list \<Rightarrow> error + byte list"
  do_GetObjectRange :: "call list \<Rightarrow> error + byte list"
  do_InitMultiUpload :: "call list \<Rightarrow> error + InitMultiUploadResult"
  do_UploadPart :: "call list \<Rightarrow> error + string"
  do_CompleteMultiUpload :: "call list \<Rightarrow> error option"
  do_AbortMultiUpload :: "call list \<Rightarrow> error option"
  do_ListUploadParts :: "call list \<Rightarrow> error + ListPartsResult"
  do_ListMultiResult :: "call list \<Rightarrow> error + ListMultiResult"
  do_Read :: "call list \<Rightarrow> nat"

text \<open>
  The body handed to \<open>UploadPart\<close> is an \<open>io.Reader\<close>. \<open>http.NewRequest\<close> sets
  the request's \<open>ContentLength\<close> from a \<open>*bytes.Reader\<close> and leaves it 0 for any
  other reader, such as the body of a response.
\<close>

datatype reader = BytesReader "byte list" | BodyReader "byte list"

fun reader_bytes :: "reader \<Rightarrow> byte list" where
  "reader_bytes (BytesReader bs) = bs"
| "reader_bytes (BodyReader bs) = bs"

fun ContentLength :: "reader \<Rightarrow> int64" where
  "ContentLength (BytesReader bs) = of_nat (length bs)"
| "ContentLength (BodyReader bs) = 0"

text \<open>
  \<open>body.Read(buf)\<close> overwrites a prefix of \<open>buf\<close>: at most \<open>len(buf)\<close> bytes, at
  most what the body holds, at most what is ready. The length of \<open>buf\<close> is unchanged.
\<close>

definition Read :: "nat \<Rightarrow> byte list \<Rightarrow> byte list \<Rightarrow> byte list" where
  "Read ready body buf =
     (let k = min ready (min (length buf) (length body)) in take k body @ drop k buf)"


section \<open>NosClient (nos\_client.go)\<close>

definition MAX_TYR_TIMES :: nat where
  "MAX_TYR_TIMES = 8"

text \<open>\<open>strings.HasPrefix(s, prefix)\<close>.\<close>

definition HasPrefix :: "string \<Rightarrow> string \<Rightarrow> bool" where
  "HasPrefix s prefix = (take (length prefix) s = prefix)"

definition GetObject ::
  "backend \<Rightarrow> string \<Rightarrow> string \<Rightarrow> call list \<Rightarrow> (error + byte list) \<times> call list" where
  "GetObject client bucket object log =
     (let log' = log @ [GetObjectCall bucket object] in (do_GetObject client log', log'))"

definition GetObjectRange ::
  "backend \<Rightarrow> string \<Rightarrow> string \<Rightarrow> string \<Rightarrow> call list \<Rightarrow> (error + byte list) \<times> call list" where
  "GetObjectRange client bucket object objRange log =
     (let log' = log @ [GetObjectRangeCall bucket object objRange]
      in (do_GetObjectRange client log', log'))"

definition InitMultiUpload ::
  "backend \<Rightarrow> string \<Rightarrow> string \<Rightarrow> call list \<Rightarrow> (error + InitMultiUploadResult) \<times> call list" where
  "InitMultiUpload client bucket object log =
     (let log' = log @ [InitMultiUploadCall bucket object]
      in (do_InitMultiUpload client log', log'))"

definition UploadPart ::
  "backend \<Rightarrow> string \<Rightarrow> string \<Rightarrow> int64 \<Rightarrow> int32 \<Rightarrow> reader \<Rightarrow> call list
     \<Rightarrow> (error + UploadPart) \<times> call list" where
  "UploadPart client bucket object uploadId partNumber content log =
     (let log' = log @ [UploadPartCall bucket object uploadId partNumber (reader_bytes content)];
          size = ContentLength content
      in case do_UploadPart client log' of
           Inl err \<Rightarrow> (Inl err, log')
         | Inr etag \<Rightarrow>
             if etag = [] then (Inl (Err ''No Etag Header''), log')
             else (Inr \<lparr>Part_PartNumber = partNumber, Part_Etag = etag, Part_Size = size\<rparr>, log'))"

definition UploadPartCopy ::
  "backend \<Rightarrow> string \<Rightarrow> string \<Rightarrow> int64 \<Rightarrow> int32 \<Rightarrow> string \<Rightarrow> string \<Rightarrow> call list
     \<Rightarrow> (error + UploadPart) \<times> call list" where
  "UploadPartCopy client bucket object uploadId partNumber srcObject srcObjRange log =
     (case (if srcObjRange = [] then GetObjectRange client bucket srcObject srcObjRange log
            else GetObject client bucket srcObject log) of
        (Inl err, log') \<Rightarrow> (Inl err, log')
      | (Inr srcBody, log') \<Rightarrow>
          UploadPart client bucket object uploadId partNumber (BodyReader srcBody) log')"

definition CompleteMultiUpload ::
  "backend \<Rightarrow> string \<Rightarrow> string \<Rightarrow> int64 \<Rightarrow> UploadPart list \<Rightarrow> call list
     \<Rightarrow> error option \<times> call list" where
  "CompleteMultiUpload client bucket object uploadId uploadParts log =
     (let log' = log @ [CompleteMultiUploadCall bucket object uploadId uploadParts]
      in (do_CompleteMultiUpload client log', log'))"

definition AbortMultiUpload ::
  "backend \<Rightarrow> string \<Rightarrow> string \<Rightarrow> int64 \<Rightarrow> call list \<Rightarrow> error option \<times> call list" where
  "AbortMultiUpload client bucket object uploadId log =
     (let log' = log @ [AbortMultiUploadCall bucket object uploadId]
      in (do_AbortMultiUpload client log', log'))"

definition ListUploadParts ::
  "backend \<Rightarrow> string \<Rightarrow> string \<Rightarrow> int64 \<Rightarrow> int32 \<Rightarrow> int32 \<Rightarrow> call list
     \<Rightarrow> (error + ListPartsResult) \<times> call list" where
  "ListUploadParts client bucket object uploadId maxParts marker log =
     (let log' = log @ [ListUploadPartsCall bucket object uploadId]
      in (do_ListUploadParts client log', log'))"

definition ListMultiResult ::
  "backend \<Rightarrow> string \<Rightarrow> string \<Rightarrow> call list \<Rightarrow> (error + ListMultiResult) \<times> call list" where
  "ListMultiResult client bucket keyMarker log =
     (let log' = log @ [ListMultiResultCall bucket keyMarker]
      in (do_ListMultiResult client log', log'))"

text \<open>
  The loop of \<open>ListMulti\<close>, with its counter \<open>i\<close> (from \<open>MAX_TYR_TIMES\<close> down) as
  the recursion argument: a page is fetched, the uploads whose key starts with
  \<open>prefix\<close> are appended, and the loop goes on with the next key marker while the page
  is truncated and the counter is positive. When the counter runs out the uploads
  collected so far are returned without an error.
\<close>

fun ListMulti_loop ::
  "backend \<Rightarrow> string \<Rightarrow> string \<Rightarrow> nat \<Rightarrow> string \<Rightarrow> Upload list \<Rightarrow> call list
     \<Rightarrow> (error + Upload list) \<times> call list" where
  "ListMulti_loop client bucket prefix 0 keyMarker multis log = (Inr multis, log)"
| "ListMulti_loop client bucket prefix (Suc i) keyMarker multis log =
     (case ListMultiResult client bucket keyMarker log of
        (Inl err, log') \<Rightarrow> (Inl err, log')
      | (Inr result, log') \<Rightarrow>
          (let multis' = multis @ filter (\<lambda>multi. HasPrefix (Upload_Key multi) prefix) (Uploads result)
           in if \<not> IsTruncated result then (Inr multis', log')
              else ListMulti_loop client bucket prefix i (NextKeyMarker result) multis' log'))"

definition ListMulti ::
  "backend \<Rightarrow> string \<Rightarrow> string \<Rightarrow> string \<Rightarrow> string \<Rightarrow> call list
     \<Rightarrow> (error + Upload list) \<times> call list" where
  "ListMulti client bucket prefix delimiter keyMarker log =
     ListMulti_loop client bucket prefix MAX_TYR_TIMES keyMarker [] log"


section \<open>The driver and its writer (nos\_client.go, second part)\<close>

text \<open>
  \<open>minChunkSize\<close> is the constant \<open>5 << 20\<close> of the source. The driver record
  carries the floor as a field, \<open>MinChunkSize\<close>, so that the writer can also be run
  at the small sizes of the specification's scenarios; the source's driver is the one
  with \<open>MinChunkSize d = minChunkSize\<close>.
\<close>

definition minChunkSize :: int where
  "minChunkSize = 5 * 2 ^ 20"

definition defaultChunkSize :: int where
  "defaultChunkSize = 2 * minChunkSize"

record driver =
  Client :: backend
  Bucket :: string
  ChunkSize :: int64
  MinChunkSize :: int

record writer =
  key :: string
  multi :: Multi
  parts :: "UploadPartRet list"
  size' :: int64
  readyPart :: "byte list"
  pendingPart :: "byte list"
  closed :: bool
  committed :: bool
  cancelled :: bool

text \<open>\<open>strings.TrimLeft(path, "/")\<close>.\<close>

definition nosPath :: "string \<Rightarrow> string" where
  "nosPath path = dropWhile (\<lambda>c. c = CHR ''/'') path"

text \<open>
  \<open>parseError\<close> looks at the message of a client error. It is only ever applied to
  errors of the client, which are never a \<open>PathNotFoundError\<close>.
\<close>

fun parseError :: "string \<Rightarrow> error \<Rightarrow> error" where
  "parseError path (Err msg) = (if HasPrefix msg ''404'' then PathNotFoundError path else Err msg)"
| "parseError path (PathNotFoundError p) = PathNotFoundError p"

definition TranslateToUploadParts :: "UploadPartRet list \<Rightarrow> UploadPart list" where
  "TranslateToUploadParts uploadPartIn =
     map (\<lambda>part. \<lparr>Part_PartNumber = ucast (PartNumber part), Part_Etag = Etag part, Part_Size = 0\<rparr>)
       uploadPartIn"

definition newWriter :: "string \<Rightarrow> Multi \<Rightarrow> UploadPartRet list \<Rightarrow> writer" where
  "newWriter k m ps =
     \<lparr>key = k, multi = m, parts = ps,
      size' = foldl (\<lambda>size part. size + Size part) 0 ps,
      readyPart = [], pendingPart = [],
      closed = False, committed = False, cancelled = False\<rparr>"

text \<open>
  The loop of \<open>driver.Writer\<close> over the uploads that \<open>ListMulti\<close> returned: the
  first one whose key equals the target key decides the result.
\<close>

fun Writer_scan ::
  "driver \<Rightarrow> string \<Rightarrow> string \<Rightarrow> Upload list \<Rightarrow> call list \<Rightarrow> (error + writer) \<times> call list" where
  "Writer_scan d path k [] log = (Inl (PathNotFoundError path), log)"
| "Writer_scan d path k (m # multis) log =
     (if k \<noteq> Upload_Key m then Writer_scan d path k multis log
      else case ListUploadParts (Client d) (Bucket d) k (Upload_UploadId m) 1000 0 log of
             (Inl err, log') \<Rightarrow> (Inl (parseError path err), log')
           | (Inr ps, log') \<Rightarrow> (Inr (newWriter k (newMulti m) (Parts ps)), log'))"

definition Writer ::
  "driver \<Rightarrow> string \<Rightarrow> bool \<Rightarrow> call list \<Rightarrow> (error + writer) \<times> call list" where
  "Writer d path apd log =
     (let k = nosPath path in
      if \<not> apd then
        (case InitMultiUpload (Client d) (Bucket d) k log of
           (Inl err, log') \<Rightarrow> (Inl err, log')
         | (Inr m, log') \<Rightarrow> (Inr (newWriter k (initMulti m) []), log'))
      else
        (case ListMulti (Client d) (Bucket d) k [] [] log of
           (Inl err, log') \<Rightarrow> (Inl (parseError path err), log')
         | (Inr multis, log') \<Rightarrow> Writer_scan d path k multis log'))"

text \<open>
  \<open>flushPart\<close>. The merge of a short pending part into the ready part happens before
  the upload, so it stays done when the upload fails.
\<close>

definition flushPart :: "driver \<Rightarrow> writer \<Rightarrow> call list \<Rightarrow> error option \<times> writer \<times> call list" where
  "flushPart d w log =
     (if length (readyPart w) = 0 \<and> length (pendingPart w) = 0 then (None, w, log)
      else
        (let w1 = (if int (length (pendingPart w)) < sint (ChunkSize d)
                   then w\<lparr>readyPart := readyPart w @ pendingPart w, pendingPart := []\<rparr>
                   else w)
         in case UploadPart (Client d) (Bucket d) (key w1) (Multi_UploadId (multi w1))
                   (of_nat (length (parts w1) + 1)) (BytesReader (readyPart w1)) log of
              (Inl err, log') \<Rightarrow> (Some err, w1, log')
            | (Inr part, log') \<Rightarrow>
                (None,
                 w1\<lparr>parts := parts w1 @
                       [\<lparr>PartNumber = scast (Part_PartNumber part), LastModified = [],
                         Etag = Part_Etag part, Size = Part_Size part\<rparr>],
                     readyPart := pendingPart w1, pendingPart := []\<rparr>,
                 log')))"

text \<open>
  The first block of \<open>Write\<close> after the state checks: when the last part known is
  smaller than the floor, the session is completed and a new one is started.
\<close>

definition Write_repair :: "driver \<Rightarrow> writer \<Rightarrow> call list \<Rightarrow> error option \<times> writer \<times> call list" where
  "Write_repair d w log =
     (if length (parts w) > 0 \<and> sint (Size (last (parts w))) < MinChunkSize d then
        (case CompleteMultiUpload (Client d) (Bucket d) (key w) (Multi_UploadId (multi w))
                (TranslateToUploadParts (parts w)) log of
           (Some err, log1) \<Rightarrow>
             (case AbortMultiUpload (Client d) (Bucket d) (key w) (Multi_UploadId (multi w)) log1 of
                (_, log2) \<Rightarrow> (Some err, w, log2))
         | (None, log1) \<Rightarrow>
             (case InitMultiUpload (Client d) (Bucket d) (key w) log1 of
                (Inl err, log2) \<Rightarrow> (Some err, w, log2)
              | (Inr m, log2) \<Rightarrow>
                  (let w1 = w\<lparr>multi := initMulti m\<rparr> in
                   if sint (size' w1) < MinChunkSize d then
                     (case GetObject (Client d) (Bucket d) (key w1) log2 of
                        (Inl err, log3) \<Rightarrow> (Some err, w1, log3)
                      | (Inr contents, log3) \<Rightarrow>
                          (None,
                           w1\<lparr>parts := [],
                               readyPart := Read (do_Read (Client d) log3) contents (readyPart w1)\<rparr>,
                           log3))
                   else
                     (case UploadPartCopy (Client d) (Bucket d) (key w1) (Multi_UploadId (multi w1))
                             1 (key w1) [] log2 of
                        (Inl err, log3) \<Rightarrow> (Some err, w1, log3)
                      | (Inr part, log3) \<Rightarrow>
                          (None,
                           w1\<lparr>parts := [\<lparr>PartNumber = scast (Part_PartNumber part), LastModified = [],
                                         Etag = Part_Etag part, Size = Part_Size part\<rparr>]\<rparr>,
                           log3)))))
      else (None, w, log))"

text \<open>
  One pass through the body of the loop \<open>for len(p) > 0\<close> of \<open>Write\<close>: \<open>Inl\<close> is
  the return from inside the loop (a flush failed), \<open>Inr\<close> the state with which the
  loop condition is tested again.
\<close>

definition Write_body ::
  "driver \<Rightarrow> writer \<Rightarrow> byte list \<Rightarrow> nat \<Rightarrow> call list
     \<Rightarrow> ((nat \<times> error option) \<times> writer \<times> call list) + (writer \<times> byte list \<times> nat \<times> call list)" where
  "Write_body d w p n log =
     (let neededBytes = sint (ChunkSize d) - int (length (readyPart w));
          (w1, p1, n1) =
             (if neededBytes > 0 then
                (if int (length p) \<ge> neededBytes
                 then (w\<lparr>readyPart := readyPart w @ take (nat neededBytes) p\<rparr>,
                       drop (nat neededBytes) p, n + nat neededBytes)
                 else (w\<lparr>readyPart := readyPart w @ p\<rparr>, [], n + length p))
              else (w, p, n));
          neededBytes = sint (ChunkSize d) - int (length (pendingPart w1))
      in if neededBytes > 0 then
           (if int (length p1) \<ge> neededBytes then
              (let w2 = w1\<lparr>pendingPart := pendingPart w1 @ take (nat neededBytes) p1\<rparr>;
                   n2 = n1 + nat neededBytes;
                   p2 = drop (nat neededBytes) p1
               in case flushPart d w2 log of
                    (Some err, w3, log') \<Rightarrow>
                      Inl ((n2, Some err), w3\<lparr>size' := size' w3 + of_nat n2\<rparr>, log')
                  | (None, w3, log') \<Rightarrow> Inr (w3, p2, n2, log'))
            else Inr (w1\<lparr>pendingPart := pendingPart w1 @ p1\<rparr>, [], n1 + length p1, log))
         else Inr (w1, p1, n1, log))"

text \<open>
  The loop itself. Nothing bounds the number of passes (a pass that finds both
  buffers full consumes nothing), so the loop is a partial function: \<open>None\<close> is a
  call that never returns.
\<close>

partial_function (option) Write_loop ::
  "driver \<Rightarrow> writer \<Rightarrow> byte list \<Rightarrow> nat \<Rightarrow> call list
     \<Rightarrow> ((nat \<times> error option) \<times> writer \<times> call list) option" where
  "Write_loop d w p n log =
     (if length p > 0 then
        (case Write_body d w p n log of
           Inl r \<Rightarrow> Some r
         | Inr (w', p', n', log') \<Rightarrow> Write_loop d w' p' n' log')
      else Some ((n, None), w\<lparr>size' := size' w + of_nat n\<rparr>, log))"

definition Write ::
  "driver \<Rightarrow> writer \<Rightarrow> byte list \<Rightarrow> call list \<Rightarrow> ((nat \<times> error option) \<times> writer \<times> call list) option" where
  "Write d w p log =
     (if closed w then Some ((0, Some (Err ''already closed'')), w, log)
      else if committed w then Some ((0, Some (Err ''already committed'')), w, log)
      else if cancelled w then Some ((0, Some (Err ''already cancelled'')), w, log)
      else case Write_repair d w log of
             (Some err, w', log') \<Rightarrow> Some ((0, Some err), w', log')
           | (None, w', log') \<Rightarrow> Write_loop d w' p 0 log')"

definition Size_of :: "writer \<Rightarrow> int64" where
  "Size_of w = size' w"

definition Close :: "driver \<Rightarrow> writer \<Rightarrow> call list \<Rightarrow> error option \<times> writer \<times> call list" where
  "Close d w log =
     (if closed w then (Some (Err ''already closed''), w, log)
      else flushPart d (w\<lparr>closed := True\<rparr>) log)"

definition Cancel :: "driver \<Rightarrow> writer \<Rightarrow> call list \<Rightarrow> error option \<times> writer \<times> call list" where
  "Cancel d w log =
     (if closed w then (Some (Err ''already closed''), w, log)
      else if committed w then (Some (Err ''already committed''), w, log)
      else case AbortMultiUpload (Client d) (Bucket d) (key w) (Multi_UploadId (multi w)) log of
             (err, log') \<Rightarrow> (err, w\<lparr>cancelled := True\<rparr>, log'))"

definition Commit :: "driver \<Rightarrow> writer \<Rightarrow> call list \<Rightarrow> error option \<times> writer \<times> call list" where
  "Commit d w log =
     (if closed w then (Some (Err ''already closed''), w, log)
      else if committed w then (Some (Err ''already committed''), w, log)
      else if cancelled w then (Some (Err ''already cancelled''), w, log)
      else case flushPart d w log of
             (Some err, w1, log1) \<Rightarrow> (Some err, w1, log1)
           | (None, w1, log1) \<Rightarrow>
               (let w2 = w1\<lparr>committed := True\<rparr> in
                case CompleteMultiUpload (Client d) (Bucket d) (key w2) (Multi_UploadId (multi w2))
                       (TranslateToUploadParts (parts w2)) log1 of
                  (Some err, log2) \<Rightarrow>
                    (case AbortMultiUpload (Client d) (Bucket d) (key w2) (Multi_UploadId (multi w2)) log2 of
                       (_, log3) \<Rightarrow> (Some err, w2, log3))
                | (None, log2) \<Rightarrow> (None, w2, log2)))"


section \<open>Running a writer\<close>

text \<open>
  The errors with which \<open>Write\<close>, \<open>Close\<close>, \<open>Commit\<close> and \<open>Cancel\<close> refuse
  to work on a writer that has reached a terminal state.
\<close>

definition StateError :: "error \<Rightarrow> bool" where
  "StateError err =
     (err = Err ''already closed'' \<or> err = Err ''already committed'' \<or> err = Err ''already cancelled'')"

text \<open>
  A caller's use of a writer is a sequence of operations, each started on the writer
  and the request log the one before left behind. A result is the byte count and
  error of \<open>Write\<close>; the other operations return an error only, shown with count 0.
  The run is \<open>None\<close> when one of its \<open>Write\<close> calls does not return.
\<close>

datatype op = WriteOp "byte list" | CloseOp | CommitOp | CancelOp

fun apply_op ::
  "driver \<Rightarrow> op \<Rightarrow> writer \<Rightarrow> call list \<Rightarrow> ((nat \<times> error option) \<times> writer \<times> call list) option" where
  "apply_op d (WriteOp p) w log = Write d w p log"
| "apply_op d CloseOp w log = (case Close d w log of (err, w', log') \<Rightarrow> Some ((0, err), w', log'))"
| "apply_op d CommitOp w log = (case Commit d w log of (err, w', log') \<Rightarrow> Some ((0, err), w', log'))"
| "apply_op d CancelOp w log = (case Cancel d w log of (err, w', log') \<Rightarrow> Some ((0, err), w', log'))"

fun apply_ops ::
  "driver \<Rightarrow> op list \<Rightarrow> writer \<Rightarrow> call list
     \<Rightarrow> ((nat \<times> error option) list \<times> writer \<times> call list) option" where
  "apply_ops d [] w log = Some ([], w, log)"
| "apply_ops d (x # xs) w log =
     (case apply_op d x w log of
        None \<Rightarrow> None
      | Some (r, w', log') \<Rightarrow>
          (case apply_ops d xs w' log' of
             None \<Rightarrow> None
           | Some (rs, w'', log'') \<Rightarrow> Some (r # rs, w'', log'')))"


section \<open>Stores and writers for the examples\<close>

text \<open>
  A store that accepts every request: it holds a three-byte object, issues upload
  id 8 and has no upload in flight.
\<close>

definition ok_store :: backend where
  "ok_store =
     \<lparr>do_GetObject = (\<lambda>log. Inr [1, 2, 3]),
      do_GetObjectRange = (\<lambda>log. Inr [1, 2]),
      do_InitMultiUpload = (\<lambda>log. Inr \<lparr>Init_Bucket = ''b'', Init_Object = ''k'', Init_UploadId = 8\<rparr>),
      do_UploadPart = (\<lambda>log. Inr ''etag''),
      do_CompleteMultiUpload = (\<lambda>log. None),
      do_AbortMultiUpload = (\<lambda>log. None),
      do_ListUploadParts = (\<lambda>log. Inr \<lparr>NextPartNumberMarker = 0, Parts_IsTruncated = False, Parts = []\<rparr>),
      do_ListMultiResult = (\<lambda>log. Inr \<lparr>NextKeyMarker = [], Uploads = [], IsTruncated = False\<rparr>),
      do_Read = (\<lambda>log. 3)\<rparr>"

text \<open>A store that refuses to complete an upload, and fails to abort it as well.\<close>

definition complete_fails_store :: backend where
  "complete_fails_store =
     ok_store\<lparr>do_CompleteMultiUpload := (\<lambda>log. Some (Err ''400 Bad Request'')),
              do_AbortMultiUpload := (\<lambda>log. Some (Err ''500 Internal Server Error''))\<rparr>"

text \<open>The driver of the specification's scenarios: chunk size 10, floor 10.\<close>

definition driver10 :: "backend \<Rightarrow> driver" where
  "driver10 store = \<lparr>Client = store, Bucket = ''b'', ChunkSize = 10, MinChunkSize = 10\<rparr>"

text \<open>The writer that \<open>driver.Writer\<close> returns for a new upload with id 7.\<close>

definition fresh_writer :: writer where
  "fresh_writer = newWriter ''k'' \<lparr>Multi_Key = ''k'', Multi_UploadId = 7\<rparr> []"

text \<open>\<open>Commit\<close> and then \<open>Close\<close> on that writer, and the writer they leave.\<close>

definition after_Commit_Close :: "((nat \<times> error option) list \<times> writer \<times> call list) option" where
  "after_Commit_Close = apply_ops (driver10 ok_store) [CommitOp, CloseOp] fresh_writer []"

definition committed_closed_writer :: writer where
  "committed_closed_writer = fresh_writer\<lparr>closed := True, committed := True\<rparr>"

text \<open>
  A writer resumed on a session whose only part has 3 bytes, below the floor of 10.
\<close>

definition small_part :: UploadPartRet where
  "small_part = \<lparr>PartNumber = 1, LastModified = [], Etag = ''e1'', Size = 3\<rparr>"

definition resumed_writer :: writer where
  "resumed_writer = newWriter ''k'' \<lparr>Multi_Key = ''k'', Multi_UploadId = 7\<rparr> [small_part]"

text \<open>
  A store with one upload in flight for the key \<open>k\<close>, whose parts listing comes
  back with part 2 before part 1 and is marked as truncated.
\<close>

definition part_one :: UploadPartRet where
  "part_one = \<lparr>PartNumber = 1, LastModified = [], Etag = ''e1'', Size = 10\<rparr>"

definition part_two :: UploadPartRet where
  "part_two = \<lparr>PartNumber = 2, LastModified = [], Etag = ''e2'', Size = 10\<rparr>"

definition unordered_parts_store :: backend where
  "unordered_parts_store =
     ok_store\<lparr>do_ListMultiResult :=
                 (\<lambda>log. Inr \<lparr>NextKeyMarker = [],
                              Uploads = [\<lparr>Upload_Key = ''k'', Upload_UploadId = 7\<rparr>],
                              IsTruncated = False\<rparr>),
              do_ListUploadParts :=
                 (\<lambda>log. Inr \<lparr>NextPartNumberMarker = 2, Parts_IsTruncated = True,
                              Parts = [part_two, part_one]\<rparr>)\<rparr>"

text \<open>
  A store whose listing of uploads in flight has nine pages: eight empty pages that
  each announce more, then the page with the upload for the key \<open>k\<close>. The answer
  depends on how many requests the log holds.
\<close>

definition more_page :: ListMultiResult where
  "more_page = \<lparr>NextKeyMarker = ''m'', Uploads = [], IsTruncated = True\<rparr>"

definition last_page :: ListMultiResult where
  "last_page = \<lparr>NextKeyMarker = [], Uploads = [\<lparr>Upload_Key = ''k'', Upload_UploadId = 7\<rparr>],
                 IsTruncated = False\<rparr>"

definition nine_pages_store :: backend where
  "nine_pages_store =
     ok_store\<lparr>do_ListMultiResult := (\<lambda>log. if length log < 9 then Inr more_page else Inr last_page)\<rparr>"

definition eight_requests :: "call list" where
  "eight_requests = ListMultiResultCall ''b'' [] # replicate 7 (ListMultiResultCall ''b'' ''m'')"

text \<open>A store that refuses every part, and 25 bytes to write.\<close>

definition upload_fails_store :: backend where
  "upload_fails_store = ok_store\<lparr>do_UploadPart := (\<lambda>log. Inl (Err ''500 Internal Server Error''))\<rparr>"

definition bytes25 :: "byte list" where
  "bytes25 = replicate 25 0"


section \<open>Notions used in the statements about chunking\<close>

text \<open>The store accepts every part it is sent, and answers with an \<open>Etag\<close>.\<close>

definition uploads_ok :: "backend \<Rightarrow> bool" where
  "uploads_ok client =
     (\<forall>log. case do_UploadPart client log of Inl err \<Rightarrow> False | Inr etag \<Rightarrow> etag \<noteq> [])"

text \<open>
  The sizes of the parts the writer has recorded after the byte lists \<open>ps\<close> have
  been written, one \<open>Write\<close> call each, and \<open>Commit\<close> has been called.
\<close>

definition committed_sizes ::
  "driver \<Rightarrow> writer \<Rightarrow> byte list list \<Rightarrow> call list \<Rightarrow> int list option" where
  "committed_sizes d w ps log =
     (case apply_ops d (map WriteOp ps @ [CommitOp]) w log of
        None \<Rightarrow> None
      | Some (rs, w', log') \<Rightarrow> Some (map (\<lambda>part. sint (Size part)) (parts w')))"

text \<open>
  The writer as a machine that takes one byte at a time: a byte goes to the ready
  part while that is short of the chunk size, else to the pending part, and a pending
  part that has reached the chunk size is flushed at once. This is not code of the
  driver; the write loop is proved below to do the same as feeding its bytes one by
  one, which makes the effect of a \<open>Write\<close> a function of the bytes alone.
\<close>

definition feed_byte :: "driver \<Rightarrow> writer \<times> call list \<Rightarrow> byte \<Rightarrow> writer \<times> call list" where
  "feed_byte d s b =
     (case s of (w, log) \<Rightarrow>
        if int (length (readyPart w)) < sint (ChunkSize d)
        then (w\<lparr>readyPart := readyPart w @ [b]\<rparr>, log)
        else if int (length (pendingPart w)) + 1 < sint (ChunkSize d)
        then (w\<lparr>pendingPart := pendingPart w @ [b]\<rparr>, log)
        else (case flushPart d (w\<lparr>pendingPart := pendingPart w @ [b]\<rparr>) log of
                (err, w', log') \<Rightarrow> (w', log')))"

definition feed :: "driver \<Rightarrow> writer \<Rightarrow> call list \<Rightarrow> byte list \<Rightarrow> writer \<times> call list" where
  "feed d w log bs = foldl (feed_byte d) (w, log) bs"

text \<open>
  The states of a writer between two \<open>Write\<close> calls that all succeeded: open, the
  ready part at most a chunk, the pending part short of a chunk, and the last part
  recorded (if any) not below the floor.
\<close>

definition steady :: "driver \<Rightarrow> writer \<Rightarrow> bool" where
  "steady d w =
     (int (length (readyPart w)) \<le> sint (ChunkSize d) \<and>
      int (length (pendingPart w)) < sint (ChunkSize d) \<and>
      (parts w = [] \<or> MinChunkSize d \<le> sint (Size (last (parts w)))) \<and>
      \<not> closed w \<and> \<not> committed w \<and> \<not> cancelled w)"


section \<open>The terminal flags\<close>

text \<open>Flushing, the repair block and the write loop leave the three flags alone.\<close>

lemma flushPart_flags:
  "flushPart d w log = (err, w', log') \<Longrightarrow>
     closed w' = closed w \<and> committed w' = committed w \<and> cancelled w' = cancelled w"
  by (auto simp: flushPart_def Let_def split: if_splits prod.splits sum.splits)

lemma flushPart_key_multi:
  "flushPart d w log = (err, w', log') \<Longrightarrow> key w' = key w \<and> multi w' = multi w"
  by (auto simp: flushPart_def Let_def split: if_splits prod.splits sum.splits)

lemma Write_repair_flags:
  "Write_repair d w log = (err, w', log') \<Longrightarrow>
     closed w' = closed w \<and> committed w' = committed w \<and> cancelled w' = cancelled w"
  by (auto simp: Write_repair_def Let_def split: if_splits prod.splits sum.splits option.splits)

lemma Write_body_flags:
  "Write_body d w p n log = Inl (r, w', log') \<Longrightarrow>
     closed w' = closed w \<and> committed w' = committed w \<and> cancelled w' = cancelled w"
  "Write_body d w p n log = Inr (w', p', n', log') \<Longrightarrow>
     closed w' = closed w \<and> committed w' = committed w \<and> cancelled w' = cancelled w"
  by (auto simp: Write_body_def Let_def split: if_splits prod.splits sum.splits option.splits
      dest!: flushPart_flags)

text \<open>
  The loop is a partial function, so a property of all its results is proved by
  fixpoint induction: it holds of any function that satisfies the loop's equation
  wherever that function returns.
\<close>

lemma Write_loop_flags_aux:
  assumes "Write_loop d w p n log = Some y"
  shows "closed (fst (snd y)) = closed w \<and> committed (fst (snd y)) = committed w \<and>
     cancelled (fst (snd y)) = cancelled w"
proof (rule Write_loop.raw_induct
    [where P = "\<lambda>d w p n log y. closed (fst (snd y)) = closed w \<and>
       committed (fst (snd y)) = committed w \<and> cancelled (fst (snd y)) = cancelled w", OF _ assms])
  fix loop d w p n log y
  assume IH: "\<And>d w p n log y. loop d w p n log = Some y \<Longrightarrow>
     closed (fst (snd y)) = closed w \<and> committed (fst (snd y)) = committed w \<and>
     cancelled (fst (snd y)) = cancelled w"
    and eq: "(if 0 < length p
      then case Write_body d w p n log of Inl r \<Rightarrow> Some r
           | Inr (w', p', n', log') \<Rightarrow> loop d w' p' n' log'
      else Some ((n, None), w\<lparr>size' := size' w + of_nat n\<rparr>, log)) = Some y"
  show "closed (fst (snd y)) = closed w \<and> committed (fst (snd y)) = committed w \<and>
     cancelled (fst (snd y)) = cancelled w"
  proof (cases "0 < length p")
    case False
    with eq show ?thesis by auto
  next
    case True
    show ?thesis
    proof (cases "Write_body d w p n log")
      case (Inl a)
      with True eq have "Write_body d w p n log = Inl (fst y, fst (snd y), snd (snd y))" by simp
      then show ?thesis by (rule Write_body_flags(1))
    next
      case (Inr b)
      obtain w1 p1 n1 log1 where b: "b = (w1, p1, n1, log1)" by (cases b) auto
      with Inr True eq have "loop d w1 p1 n1 log1 = Some y" by simp
      from IH[OF this] Write_body_flags(2)[OF Inr[unfolded b]] show ?thesis by simp
    qed
  qed
qed

lemma Write_loop_flags:
  "Write_loop d w p n log = Some (r, w', log') \<Longrightarrow>
     closed w' = closed w \<and> committed w' = committed w \<and> cancelled w' = cancelled w"
  using Write_loop_flags_aux by fastforce

lemma Write_flags:
  "Write d w p log = Some (r, w', log') \<Longrightarrow>
     closed w' = closed w \<and> committed w' = committed w \<and> cancelled w' = cancelled w"
  by (auto simp: Write_def split: if_splits prod.splits option.splits
      dest!: Write_repair_flags Write_loop_flags)

lemma apply_op_committed_cancelled:
  assumes "apply_op d x w log = Some (r, w', log')" "\<not> (committed w \<and> cancelled w)"
  shows "\<not> (committed w' \<and> cancelled w')"
proof (cases x)
  case (WriteOp p)
  with assms show ?thesis by (auto dest!: Write_flags)
next
  case CloseOp
  with assms show ?thesis
    by (auto simp: Close_def split: if_splits prod.splits dest!: flushPart_flags)
next
  case CommitOp
  with assms show ?thesis
    by (auto simp: Commit_def Let_def split: if_splits prod.splits option.splits dest!: flushPart_flags)
next
  case CancelOp
  with assms show ?thesis
    by (auto simp: Cancel_def split: if_splits prod.splits)
qed

lemma apply_ops_committed_cancelled:
  "apply_ops d ops w log = Some (rs, w', log') \<Longrightarrow> \<not> (committed w \<and> cancelled w) \<Longrightarrow>
     \<not> (committed w' \<and> cancelled w')"
proof (induction ops arbitrary: w log rs)
  case Nil
  then show ?case by simp
next
  case (Cons x xs)
  from Cons.prems(1) obtain r w1 log1 rs1 where
    s: "apply_op d x w log = Some (r, w1, log1)" and t: "apply_ops d xs w1 log1 = Some (rs1, w', log')"
    by (auto split: option.splits prod.splits)
  from apply_op_committed_cancelled[OF s Cons.prems(2)] Cons.IH[OF t] show ?case by blast
qed

text \<open>
  Claim C1, as amended. On every writer reached from a new writer by any sequence of
  operations: \<open>committed\<close> and \<open>cancelled\<close> are never both set; once any of the
  three flags is set, \<open>Write\<close> and \<open>Commit\<close> fail with a state error, leave the
  writer as it is and send no request; \<open>Close\<close> does so once \<open>closed\<close> is set, and
  \<open>Cancel\<close> once \<open>closed\<close> or \<open>committed\<close> is set. (\<open>Close\<close> tests
  \<open>closed\<close> only, so \<open>closed\<close> can be set together with either of the other two.)
\<close>

theorem terminal_flags:
  assumes "apply_ops d ops (newWriter k m ps) log0 = Some (rs, w, log)"
  shows "\<not> (committed w \<and> cancelled w) \<and>
         (closed w \<or> committed w \<or> cancelled w \<longrightarrow>
            (\<exists>err. StateError err \<and> Write d w p log = Some ((0, Some err), w, log)) \<and>
            (\<exists>err. StateError err \<and> Commit d w log = (Some err, w, log))) \<and>
         (closed w \<longrightarrow> Close d w log = (Some (Err ''already closed''), w, log)) \<and>
         (closed w \<or> committed w \<longrightarrow>
            (\<exists>err. StateError err \<and> Cancel d w log = (Some err, w, log)))"
proof -
  have "\<not> (committed (newWriter k m ps) \<and> cancelled (newWriter k m ps))"
    by (simp add: newWriter_def)
  from apply_ops_committed_cancelled[OF assms this] have "\<not> (committed w \<and> cancelled w)" .
  then show ?thesis
    by (auto simp: Write_def Commit_def Close_def Cancel_def StateError_def)
qed

lemma after_Commit_Close_eq:
  "after_Commit_Close =
     Some ([(0, None), (0, None)], committed_closed_writer, [CompleteMultiUploadCall ''b'' ''k'' 7 []])"
  by (simp add: after_Commit_Close_def committed_closed_writer_def driver10_def ok_store_def
      fresh_writer_def newWriter_def Commit_def Close_def flushPart_def CompleteMultiUpload_def
      TranslateToUploadParts_def)

text \<open>
  Claim C1 as stated fails: after a successful \<open>Commit\<close>, \<open>Close\<close> succeeds too
  (both results are \<open>None\<close>) and leaves \<open>closed\<close> and \<open>committed\<close> both set.
\<close>

theorem terminal_flags_counterexample:
  "after_Commit_Close =
     Some ([(0, None), (0, None)], committed_closed_writer, [CompleteMultiUploadCall ''b'' ''k'' 7 []]) \<and>
   closed committed_closed_writer \<and> committed committed_closed_writer"
  by (simp add: after_Commit_Close_eq) (simp add: committed_closed_writer_def)

theorem terminal_flags_witness:
  "apply_ops (driver10 ok_store) [CommitOp, CloseOp] (newWriter ''k'' \<lparr>Multi_Key = ''k'', Multi_UploadId = 7\<rparr> []) [] =
     Some ([(0, None), (0, None)], committed_closed_writer, [CompleteMultiUploadCall ''b'' ''k'' 7 []]) \<and>
   \<not> cancelled committed_closed_writer \<and>
   Write (driver10 ok_store) committed_closed_writer [1, 2] [CompleteMultiUploadCall ''b'' ''k'' 7 []] =
     Some ((0, Some (Err ''already closed'')), committed_closed_writer, [CompleteMultiUploadCall ''b'' ''k'' 7 []]) \<and>
   Close (driver10 ok_store) committed_closed_writer [CompleteMultiUploadCall ''b'' ''k'' 7 []] =
     (Some (Err ''already closed''), committed_closed_writer, [CompleteMultiUploadCall ''b'' ''k'' 7 []])"
proof -
  have a: "apply_ops (driver10 ok_store) [CommitOp, CloseOp] (newWriter ''k'' \<lparr>Multi_Key = ''k'', Multi_UploadId = 7\<rparr> []) [] =
     Some ([(0, None), (0, None)], committed_closed_writer, [CompleteMultiUploadCall ''b'' ''k'' 7 []])"
    using after_Commit_Close_eq by (simp add: after_Commit_Close_def fresh_writer_def)
  have c: "closed committed_closed_writer" "committed committed_closed_writer"
    by (simp_all add: committed_closed_writer_def)
  from terminal_flags[OF a, of "[1, 2]"] c a show ?thesis
    by (auto simp: Write_def)
qed


section \<open>A failed Commit\<close>

text \<open>
  Claim C5. When the flush of \<open>Commit\<close> succeeds and the Complete request fails with
  \<open>err\<close>, \<open>Commit\<close> returns \<open>err\<close>, and the one request it sends after the
  Complete request is the Abort of the session. The store is arbitrary, so this holds
  whatever the store answers to the Abort.
\<close>

theorem Commit_failed_Complete_aborts:
  assumes "\<not> closed w" "\<not> committed w" "\<not> cancelled w"
    and "flushPart d w log = (None, w1, log1)"
    and "CompleteMultiUpload (Client d) (Bucket d) (key w) (Multi_UploadId (multi w))
           (TranslateToUploadParts (parts w1)) log1 = (Some err, log2)"
  shows "fst (Commit d w log) = Some err \<and>
         snd (snd (Commit d w log)) =
           log2 @ [AbortMultiUploadCall (Bucket d) (key w) (Multi_UploadId (multi w))]"
  using assms flushPart_key_multi[OF assms(4)]
  by (simp add: Commit_def AbortMultiUpload_def Let_def)

theorem Commit_failed_Complete_aborts_witness:
  "fst (Commit (driver10 complete_fails_store) fresh_writer []) = Some (Err ''400 Bad Request'') \<and>
   snd (snd (Commit (driver10 complete_fails_store) fresh_writer [])) =
     [CompleteMultiUploadCall ''b'' ''k'' 7 [], AbortMultiUploadCall ''b'' ''k'' 7] \<and>
   do_AbortMultiUpload complete_fails_store
     [CompleteMultiUploadCall ''b'' ''k'' 7 [], AbortMultiUploadCall ''b'' ''k'' 7] =
     Some (Err ''500 Internal Server Error'')"
proof -
  let ?d = "driver10 complete_fails_store"
  have f: "flushPart ?d fresh_writer [] = (None, fresh_writer, [])"
    by (simp add: flushPart_def fresh_writer_def newWriter_def)
  have c: "CompleteMultiUpload (Client ?d) (Bucket ?d) (key fresh_writer)
             (Multi_UploadId (multi fresh_writer)) (TranslateToUploadParts (parts fresh_writer)) [] =
           (Some (Err ''400 Bad Request''), [CompleteMultiUploadCall ''b'' ''k'' 7 []])"
    by (simp add: CompleteMultiUpload_def driver10_def complete_fails_store_def ok_store_def
        fresh_writer_def newWriter_def TranslateToUploadParts_def)
  have o: "\<not> closed fresh_writer" "\<not> committed fresh_writer" "\<not> cancelled fresh_writer"
    by (simp_all add: fresh_writer_def newWriter_def)
  show ?thesis
    using Commit_failed_Complete_aborts[OF o f c]
    by (simp add: driver10_def complete_fails_store_def ok_store_def fresh_writer_def newWriter_def)
qed

lemma committed_ops_fail:
  "committed w \<Longrightarrow> \<not> closed w \<Longrightarrow> CloseOp \<notin> set ops \<Longrightarrow>
     apply_ops d ops w log = Some (replicate (length ops) (0, Some (Err ''already committed'')), w, log)"
proof (induction ops)
  case Nil
  then show ?case by simp
next
  case (Cons x xs)
  then have "apply_op d x w log = Some ((0, Some (Err ''already committed'')), w, log)"
    by (cases x) (simp_all add: Write_def Commit_def Cancel_def)
  with Cons show ?case by simp
qed

text \<open>
  Claim C10. When the Complete request of \<open>Commit\<close> fails, the writer is left with
  \<open>committed\<close> set, and every later \<open>Write\<close>, \<open>Commit\<close> and \<open>Cancel\<close>, in
  any number and order, fails with the error "already committed", changing neither
  the writer nor the request log.
\<close>

theorem failed_Commit_stays_committed:
  assumes "\<not> closed w" "\<not> committed w" "\<not> cancelled w"
    and "flushPart d w log = (None, w1, log1)"
    and "CompleteMultiUpload (Client d) (Bucket d) (key w) (Multi_UploadId (multi w))
           (TranslateToUploadParts (parts w1)) log1 = (Some err, log2)"
    and "Commit d w log = (r, w', log')"
    and "CloseOp \<notin> set ops"
  shows "r = Some err \<and> committed w' \<and>
         apply_ops d ops w' log' =
           Some (replicate (length ops) (0, Some (Err ''already committed'')), w', log')"
proof -
  from assms(4) have k: "key w1 = key w" "multi w1 = multi w" and c: "closed w1 = closed w"
    using flushPart_key_multi flushPart_flags by blast+
  from assms k have r: "r = Some err" and w': "w' = w1\<lparr>committed := True\<rparr>"
    by (auto simp: Commit_def Let_def split: prod.splits)
  from w' c assms(1) have "committed w'" "\<not> closed w'" by simp_all
  from committed_ops_fail[OF this assms(7)] r \<open>committed w'\<close> show ?thesis by simp
qed

theorem failed_Commit_stays_committed_witness:
  "fst (Commit (driver10 complete_fails_store) fresh_writer []) = Some (Err ''400 Bad Request'') \<and>
   committed (fst (snd (Commit (driver10 complete_fails_store) fresh_writer []))) \<and>
   apply_ops (driver10 complete_fails_store) [WriteOp [1, 2], CommitOp, CancelOp]
       (fst (snd (Commit (driver10 complete_fails_store) fresh_writer [])))
       (snd (snd (Commit (driver10 complete_fails_store) fresh_writer []))) =
     Some ([(0, Some (Err ''already committed'')), (0, Some (Err ''already committed'')),
            (0, Some (Err ''already committed''))],
           fst (snd (Commit (driver10 complete_fails_store) fresh_writer [])),
           snd (snd (Commit (driver10 complete_fails_store) fresh_writer [])))"
proof -
  let ?d = "driver10 complete_fails_store"
  have f: "flushPart ?d fresh_writer [] = (None, fresh_writer, [])"
    by (simp add: flushPart_def fresh_writer_def newWriter_def)
  have c: "CompleteMultiUpload (Client ?d) (Bucket ?d) (key fresh_writer)
             (Multi_UploadId (multi fresh_writer)) (TranslateToUploadParts (parts fresh_writer)) [] =
           (Some (Err ''400 Bad Request''), [CompleteMultiUploadCall ''b'' ''k'' 7 []])"
    by (simp add: CompleteMultiUpload_def driver10_def complete_fails_store_def ok_store_def
        fresh_writer_def newWriter_def TranslateToUploadParts_def)
  have o: "\<not> closed fresh_writer" "\<not> committed fresh_writer" "\<not> cancelled fresh_writer"
    by (simp_all add: fresh_writer_def newWriter_def)
  have e: "Commit ?d fresh_writer [] =
      (fst (Commit ?d fresh_writer []), fst (snd (Commit ?d fresh_writer [])), snd (snd (Commit ?d fresh_writer [])))"
    by simp
  have n: "CloseOp \<notin> set [WriteOp [1, 2], CommitOp, CancelOp]" by simp
  from failed_Commit_stays_committed[OF o f c e n] show ?thesis
    by (simp add: numeral_3_eq_3)
qed


section \<open>Opening a writer for append\<close>

text \<open>
  What \<open>ListMulti\<close> has done when it returns uploads: it fetched a non-empty list
  of pages, at most \<open>i\<close> of them, each requested with the key marker the page
  before announced; every page but the last was truncated, the last one was not
  unless the counter ran out; the result is the uploads of these pages whose key
  starts with the prefix.
\<close>

lemma ListMulti_loop_pages:
  "ListMulti_loop client bucket prefix i keyMarker acc log = (Inr multis, log') \<Longrightarrow> 0 < i \<Longrightarrow>
     \<exists>pages. pages \<noteq> [] \<and> length pages \<le> i \<and>
       log' = log @ map (ListMultiResultCall bucket) (keyMarker # map NextKeyMarker (butlast pages)) \<and>
       (\<forall>j < length pages.
          do_ListMultiResult client
            (log @ map (ListMultiResultCall bucket)
                     (take (Suc j) (keyMarker # map NextKeyMarker (butlast pages)))) = Inr (pages ! j)) \<and>
       (\<forall>r \<in> set (butlast pages). IsTruncated r) \<and>
       (length pages < i \<longrightarrow> \<not> IsTruncated (last pages)) \<and>
       multis = acc @ concat (map (\<lambda>r. filter (\<lambda>m. HasPrefix (Upload_Key m) prefix) (Uploads r)) pages)"
proof (induction i arbitrary: keyMarker acc log)
  case 0
  then show ?case by simp
next
  case (Suc i)
  let ?log1 = "log @ [ListMultiResultCall bucket keyMarker]"
  let ?keep = "\<lambda>r. filter (\<lambda>m. HasPrefix (Upload_Key m) prefix) (Uploads r)"
  from Suc.prems(1) obtain r where r: "do_ListMultiResult client ?log1 = Inr r"
    by (cases "do_ListMultiResult client ?log1") (auto simp: ListMultiResult_def Let_def)
  show ?case
  proof (cases "IsTruncated r \<and> 0 < i")
    case False
    with Suc.prems(1) r have "multis = acc @ ?keep r" "log' = ?log1"
      by (auto simp: ListMultiResult_def Let_def split: if_splits)
    with r False have
      "[r] \<noteq> [] \<and> length [r] \<le> Suc i \<and>
       log' = log @ map (ListMultiResultCall bucket) (keyMarker # map NextKeyMarker (butlast [r])) \<and>
       (\<forall>j < length [r].
          do_ListMultiResult client
            (log @ map (ListMultiResultCall bucket)
                     (take (Suc j) (keyMarker # map NextKeyMarker (butlast [r])))) = Inr ([r] ! j)) \<and>
       (\<forall>r \<in> set (butlast [r]). IsTruncated r) \<and>
       (length [r] < Suc i \<longrightarrow> \<not> IsTruncated (last [r])) \<and>
       multis = acc @ concat (map ?keep [r])"
      by auto
    then show ?thesis by blast
  next
    case True
    with Suc.prems(1) r have
      "ListMulti_loop client bucket prefix i (NextKeyMarker r) (acc @ ?keep r) ?log1 = (Inr multis, log')"
      by (simp add: ListMultiResult_def Let_def)
    from Suc.IH[OF this] True obtain pages where p:
      "pages \<noteq> []" "length pages \<le> i"
      "log' = ?log1 @ map (ListMultiResultCall bucket) (NextKeyMarker r # map NextKeyMarker (butlast pages))"
      "\<forall>j < length pages.
          do_ListMultiResult client
            (?log1 @ map (ListMultiResultCall bucket)
                     (take (Suc j) (NextKeyMarker r # map NextKeyMarker (butlast pages)))) = Inr (pages ! j)"
      "\<forall>r \<in> set (butlast pages). IsTruncated r"
      "length pages < i \<longrightarrow> \<not> IsTruncated (last pages)"
      "multis = (acc @ ?keep r) @ concat (map ?keep pages)"
      by blast
    have replies: "do_ListMultiResult client
            (log @ map (ListMultiResultCall bucket)
                     (take (Suc j) (keyMarker # map NextKeyMarker (butlast (r # pages))))) =
          Inr ((r # pages) ! j)" if "j < length (r # pages)" for j
    proof (cases j)
      case 0
      with r show ?thesis by simp
    next
      case (Suc j')
      with that have "j' < length pages" by simp
      with p(4) have "do_ListMultiResult client
            (?log1 @ map (ListMultiResultCall bucket)
                     (take (Suc j') (NextKeyMarker r # map NextKeyMarker (butlast pages)))) = Inr (pages ! j')"
        by blast
      with Suc p(1) show ?thesis by simp
    qed
    from p True have
      "r # pages \<noteq> [] \<and> length (r # pages) \<le> Suc i \<and>
       log' = log @ map (ListMultiResultCall bucket) (keyMarker # map NextKeyMarker (butlast (r # pages))) \<and>
       (\<forall>r \<in> set (butlast (r # pages)). IsTruncated r) \<and>
       (length (r # pages) < Suc i \<longrightarrow> \<not> IsTruncated (last (r # pages))) \<and>
       multis = acc @ concat (map ?keep (r # pages))"
      by auto
    with replies show ?thesis by blast
  qed
qed

lemma Writer_scan_no_match:
  "\<forall>m \<in> set multis. Upload_Key m \<noteq> k \<Longrightarrow>
     Writer_scan d path k multis log = (Inl (PathNotFoundError path), log)"
  by (induction multis) auto

text \<open>
  Claim C6, as amended. Opening a writer with \<open>append = true\<close> pages the listing
  of uploads in flight until a page reports no further results or
  \<open>MAX_TYR_TIMES = 8\<close> pages have been fetched, whichever comes first; it keeps
  the uploads of these pages whose key starts with the target key, and when none of
  them has exactly the target key it fails with \<open>PathNotFoundError\<close>.
\<close>

theorem Writer_append_listing:
  assumes "ListMulti (Client d) (Bucket d) (nosPath path) [] [] log = (Inr multis, log')"
  shows "(\<exists>pages. pages \<noteq> [] \<and> length pages \<le> MAX_TYR_TIMES \<and>
           log' = log @ map (ListMultiResultCall (Bucket d)) ([] # map NextKeyMarker (butlast pages)) \<and>
           (\<forall>j < length pages.
              do_ListMultiResult (Client d)
                (log @ map (ListMultiResultCall (Bucket d))
                         (take (Suc j) ([] # map NextKeyMarker (butlast pages)))) = Inr (pages ! j)) \<and>
           (\<forall>r \<in> set (butlast pages). IsTruncated r) \<and>
           (length pages < MAX_TYR_TIMES \<longrightarrow> \<not> IsTruncated (last pages)) \<and>
           multis = concat (map (\<lambda>r. filter (\<lambda>m. HasPrefix (Upload_Key m) (nosPath path)) (Uploads r)) pages)) \<and>
         ((\<forall>m \<in> set multis. Upload_Key m \<noteq> nosPath path) \<longrightarrow>
            Writer d path True log = (Inl (PathNotFoundError path), log'))"
proof -
  from assms have "ListMulti_loop (Client d) (Bucket d) (nosPath path) MAX_TYR_TIMES [] [] log = (Inr multis, log')"
    by (simp add: ListMulti_def)
  from ListMulti_loop_pages[OF this] have 1: "\<exists>pages. pages \<noteq> [] \<and> length pages \<le> MAX_TYR_TIMES \<and>
           log' = log @ map (ListMultiResultCall (Bucket d)) ([] # map NextKeyMarker (butlast pages)) \<and>
           (\<forall>j < length pages.
              do_ListMultiResult (Client d)
                (log @ map (ListMultiResultCall (Bucket d))
                         (take (Suc j) ([] # map NextKeyMarker (butlast pages)))) = Inr (pages ! j)) \<and>
           (\<forall>r \<in> set (butlast pages). IsTruncated r) \<and>
           (length pages < MAX_TYR_TIMES \<longrightarrow> \<not> IsTruncated (last pages)) \<and>
           multis = concat (map (\<lambda>r. filter (\<lambda>m. HasPrefix (Upload_Key m) (nosPath path)) (Uploads r)) pages)"
    by (simp add: MAX_TYR_TIMES_def)
  have 2: "(\<forall>m \<in> set multis. Upload_Key m \<noteq> nosPath path) \<longrightarrow>
            Writer d path True log = (Inl (PathNotFoundError path), log')"
    using assms by (simp add: Writer_def Let_def Writer_scan_no_match)
  from 1 2 show ?thesis by blast
qed

lemma nine_pages_listing:
  "ListMulti nine_pages_store ''b'' ''k'' [] [] [] = (Inr [], eight_requests)"
  by (simp add: ListMulti_def MAX_TYR_TIMES_def numeral_eq_Suc ListMultiResult_def
      nine_pages_store_def ok_store_def more_page_def eight_requests_def Let_def)

text \<open>
  Claim C6 as stated fails: with nine pages, the writer stops after eight requests
  although the eighth answer announced more, and reports the path as not found
  although the ninth page holds an upload for the key.
\<close>

theorem Writer_append_listing_counterexample:
  "Writer (driver10 nine_pages_store) ''/k'' True [] = (Inl (PathNotFoundError ''/k''), eight_requests) \<and>
   length eight_requests = MAX_TYR_TIMES \<and>
   do_ListMultiResult nine_pages_store eight_requests = Inr more_page \<and>
   IsTruncated more_page \<and>
   do_ListMultiResult nine_pages_store (eight_requests @ [ListMultiResultCall ''b'' ''m'']) = Inr last_page \<and>
   Uploads last_page = [\<lparr>Upload_Key = ''k'', Upload_UploadId = 7\<rparr>]"
proof -
  have "Writer (driver10 nine_pages_store) ''/k'' True [] = (Inl (PathNotFoundError ''/k''), eight_requests)"
    using nine_pages_listing by (simp add: Writer_def nosPath_def driver10_def Let_def)
  then show ?thesis
    by (simp add: eight_requests_def MAX_TYR_TIMES_def nine_pages_store_def more_page_def last_page_def)
qed

theorem Writer_append_listing_witness:
  "ListMulti nine_pages_store ''b'' ''k'' [] [] [] = (Inr [], eight_requests) \<and>
   Writer (driver10 nine_pages_store) ''/k'' True [] = (Inl (PathNotFoundError ''/k''), eight_requests)"
proof -
  have a: "ListMulti (Client (driver10 nine_pages_store)) (Bucket (driver10 nine_pages_store))
             (nosPath ''/k'') [] [] [] = (Inr [], eight_requests)"
    using nine_pages_listing by (simp add: nosPath_def driver10_def)
  from Writer_append_listing[OF a] nine_pages_listing show ?thesis by simp
qed

lemma Writer_scan_parts:
  "Writer_scan d path k multis log = (Inr w, log') \<Longrightarrow>
     log' = log @ [ListUploadPartsCall (Bucket d) k (Multi_UploadId (multi w))] \<and>
     key w = k \<and> Multi_Key (multi w) = k \<and>
     (\<exists>m \<in> set multis. multi w = newMulti m) \<and>
     (\<exists>r. do_ListUploadParts (Client d) log' = Inr r \<and> parts w = Parts r)"
proof (induction multis)
  case Nil
  then show ?case by simp
next
  case (Cons m multis)
  show ?case
  proof (cases "k \<noteq> Upload_Key m")
    case True
    with Cons.prems have "Writer_scan d path k multis log = (Inr w, log')" by simp
    from Cons.IH[OF this] show ?thesis by auto
  next
    case False
    with Cons.prems show ?thesis
      by (auto simp: ListUploadParts_def Let_def newWriter_def newMulti_def split: sum.splits)
  qed
qed

text \<open>
  Claim C7, as amended. When opening with \<open>append = true\<close> returns a writer, the
  last request sent is the one \<open>ListUploadParts\<close> request for the session found,
  and the writer's parts are the parts of its answer, in the order of the answer (no
  further page is fetched and nothing is sorted): ascending when the store answers in
  ascending order.
\<close>

theorem Writer_append_parts:
  assumes "Writer d path True log = (Inr w, log')"
  shows "key w = nosPath path \<and> Multi_Key (multi w) = nosPath path \<and>
         log' \<noteq> [] \<and>
         last log' = ListUploadPartsCall (Bucket d) (nosPath path) (Multi_UploadId (multi w)) \<and>
         (\<exists>r. do_ListUploadParts (Client d) log' = Inr r \<and> parts w = Parts r)"
proof -
  from assms obtain multis log1 where
    s: "Writer_scan d path (nosPath path) multis log1 = (Inr w, log')"
    by (auto simp: Writer_def Let_def split: prod.splits sum.splits)
  from Writer_scan_parts[OF s] show ?thesis by auto
qed

text \<open>
  Claim C7 as stated fails: a store that lists part 2 before part 1 gives a writer
  whose parts are in that order.
\<close>

theorem Writer_append_parts_counterexample:
  "Writer (driver10 unordered_parts_store) ''/k'' True [] =
     (Inr (newWriter ''k'' \<lparr>Multi_Key = ''k'', Multi_UploadId = 7\<rparr> [part_two, part_one]),
      [ListMultiResultCall ''b'' [], ListUploadPartsCall ''b'' ''k'' 7]) \<and>
   map PartNumber (parts (newWriter ''k'' \<lparr>Multi_Key = ''k'', Multi_UploadId = 7\<rparr> [part_two, part_one])) = [2, 1]"
  by (simp add: Writer_def nosPath_def driver10_def unordered_parts_store_def ok_store_def
      ListMulti_def MAX_TYR_TIMES_def numeral_eq_Suc ListMultiResult_def HasPrefix_def
      ListUploadParts_def newMulti_def newWriter_def part_one_def part_two_def Let_def)

theorem Writer_append_parts_witness:
  "Writer (driver10 unordered_parts_store) ''/k'' True [] =
     (Inr (newWriter ''k'' \<lparr>Multi_Key = ''k'', Multi_UploadId = 7\<rparr> [part_two, part_one]),
      [ListMultiResultCall ''b'' [], ListUploadPartsCall ''b'' ''k'' 7]) \<and>
   (\<exists>r. do_ListUploadParts unordered_parts_store
           [ListMultiResultCall ''b'' [], ListUploadPartsCall ''b'' ''k'' 7] = Inr r \<and>
        parts (newWriter ''k'' \<lparr>Multi_Key = ''k'', Multi_UploadId = 7\<rparr> [part_two, part_one]) = Parts r)"
proof -
  have a: "Writer (driver10 unordered_parts_store) ''/k'' True [] =
     (Inr (newWriter ''k'' \<lparr>Multi_Key = ''k'', Multi_UploadId = 7\<rparr> [part_two, part_one]),
      [ListMultiResultCall ''b'' [], ListUploadPartsCall ''b'' ''k'' 7])"
    by (simp add: Writer_def nosPath_def driver10_def unordered_parts_store_def ok_store_def
      ListMulti_def MAX_TYR_TIMES_def numeral_eq_Suc ListMultiResult_def HasPrefix_def
      ListUploadParts_def newMulti_def newWriter_def part_one_def part_two_def Let_def)
  from Writer_append_parts[OF a] a show ?thesis
    by (simp add: driver10_def)
qed


section \<open>The copy of an object into a part, and the repair of a short last part\<close>

text \<open>
  The requests of \<open>UploadPartCopy\<close>: with an empty range it asks for a range of the
  source (with an empty \<open>Range\<close> header), with a range given it asks for the whole
  source object and never sends the range.
\<close>

lemma UploadPartCopy_requests:
  "UploadPartCopy client bucket object uploadId partNumber srcObject srcObjRange log =
     (case (if srcObjRange = [] then do_GetObjectRange client (log @ [GetObjectRangeCall bucket srcObject []])
            else do_GetObject client (log @ [GetObjectCall bucket srcObject])) of
        Inl err \<Rightarrow> (Inl err, log @ [if srcObjRange = [] then GetObjectRangeCall bucket srcObject []
                                       else GetObjectCall bucket srcObject])
      | Inr srcBody \<Rightarrow>
          UploadPart client bucket object uploadId partNumber (BodyReader srcBody)
            (log @ [if srcObjRange = [] then GetObjectRangeCall bucket srcObject []
                    else GetObjectCall bucket srcObject]))"
  by (simp add: UploadPartCopy_def GetObject_def GetObjectRange_def Let_def split: sum.splits)

text \<open>
  Claim C9 fails on the code. The store holds the object \<open>[1, 2, 3]\<close> and answers a
  range request with \<open>[1, 2]\<close>. Asked to copy the range \<open>bytes=0-1\<close>,
  \<open>UploadPartCopy\<close> requests the whole object and uploads all three bytes.
\<close>

theorem UploadPartCopy_ignores_range:
  "UploadPartCopy ok_store ''b'' ''k'' 8 1 ''src'' ''bytes=0-1'' [] =
     (Inr \<lparr>Part_PartNumber = 1, Part_Etag = ''etag'', Part_Size = 0\<rparr>,
      [GetObjectCall ''b'' ''src'', UploadPartCall ''b'' ''k'' 8 1 [1, 2, 3]])"
  by (simp add: UploadPartCopy_def GetObject_def UploadPart_def ok_store_def)

lemma Read_empty_buffer: "Read ready body [] = []"
  by (simp add: Read_def)

lemma Write_repair_empty_readyPart:
  "readyPart w = [] \<Longrightarrow> Write_repair d w log = (err, w', log') \<Longrightarrow> readyPart w' = []"
  by (auto simp: Write_repair_def Let_def Read_empty_buffer
      split: if_splits prod.splits sum.splits option.splits)

text \<open>
  Claim C4 fails on the code. The writer is resumed on a 3-byte part, the store holds
  the object \<open>[1, 2, 3]\<close>, and two bytes are written. \<open>Write\<close> completes the old
  session, starts a new one, drops the parts and requests the object; but it reads
  the answer into the empty ready buffer, which takes no byte, so the ready buffer
  afterwards holds the two new bytes only, while the size counter says 5.
\<close>

theorem repair_drops_old_content:
  "Write (driver10 ok_store) resumed_writer [9, 9] [] =
     Some ((2, None),
           resumed_writer\<lparr>multi := \<lparr>Multi_Key = ''k'', Multi_UploadId = 8\<rparr>, parts := [],
                           size' := 5, readyPart := [9, 9]\<rparr>,
           [CompleteMultiUploadCall ''b'' ''k'' 7 [\<lparr>Part_PartNumber = 1, Part_Etag = ''e1'', Part_Size = 0\<rparr>],
            InitMultiUploadCall ''b'' ''k'', GetObjectCall ''b'' ''k''])"
  by (simp add: Write_def Write_repair_def resumed_writer_def small_part_def newWriter_def
      driver10_def ok_store_def CompleteMultiUpload_def InitMultiUpload_def GetObject_def
      TranslateToUploadParts_def initMulti_def Read_def Write_loop.simps Write_body_def Let_def)


section \<open>The size counter\<close>

lemma flushPart_size: "flushPart d w log = (err, w', log') \<Longrightarrow> size' w' = size' w"
  by (auto simp: flushPart_def Let_def split: if_splits prod.splits sum.splits)

lemma Write_repair_size: "Write_repair d w log = (err, w', log') \<Longrightarrow> size' w' = size' w"
  by (auto simp: Write_repair_def Let_def split: if_splits prod.splits sum.splits option.splits)

lemma Write_body_size:
  "Write_body d w p n log = Inl ((n', err), w', log') \<Longrightarrow> size' w' = size' w + of_nat n'"
  "Write_body d w p n log = Inr (w', p', n', log') \<Longrightarrow> size' w' = size' w"
  by (auto simp: Write_body_def Let_def split: if_splits prod.splits sum.splits option.splits
      dest!: flushPart_size)

lemma Write_loop_size_aux:
  assumes "Write_loop d w p n log = Some y"
  shows "size' (fst (snd y)) = size' w + of_nat (fst (fst y))"
proof (rule Write_loop.raw_induct
    [where P = "\<lambda>d w p n log y. size' (fst (snd y)) = size' w + of_nat (fst (fst y))", OF _ assms])
  fix loop d w p n log y
  assume IH: "\<And>d w p n log y. loop d w p n log = Some y \<Longrightarrow>
       size' (fst (snd y)) = size' w + of_nat (fst (fst y))"
    and eq: "(if 0 < length p
      then case Write_body d w p n log of Inl r \<Rightarrow> Some r
           | Inr (w', p', n', log') \<Rightarrow> loop d w' p' n' log'
      else Some ((n, None), w\<lparr>size' := size' w + of_nat n\<rparr>, log)) = Some y"
  show "size' (fst (snd y)) = size' w + of_nat (fst (fst y))"
  proof (cases "0 < length p")
    case False
    with eq show ?thesis by auto
  next
    case True
    show ?thesis
    proof (cases "Write_body d w p n log")
      case (Inl a)
      with True eq have "Write_body d w p n log = Inl ((fst (fst y), snd (fst y)), fst (snd y), snd (snd y))"
        by simp
      then show ?thesis by (rule Write_body_size(1))
    next
      case (Inr b)
      obtain w1 p1 n1 log1 where b: "b = (w1, p1, n1, log1)" by (cases b) auto
      with Inr True eq have "loop d w1 p1 n1 log1 = Some y" by simp
      from IH[OF this] Write_body_size(2)[OF Inr[unfolded b]] show ?thesis by simp
    qed
  qed
qed

lemma Write_size:
  assumes "Write d w p log = Some ((n, err), w', log')"
  shows "size' w' = size' w + of_nat n"
proof (cases "closed w \<or> committed w \<or> cancelled w")
  case True
  with assms show ?thesis by (auto simp: Write_def split: if_splits)
next
  case False
  obtain e w1 log1 where r: "Write_repair d w log = (e, w1, log1)" by (cases "Write_repair d w log") auto
  show ?thesis
  proof (cases e)
    case (Some a)
    with assms False r Write_repair_size[OF r] show ?thesis by (auto simp: Write_def)
  next
    case None
    with assms False r have "Write_loop d w1 p 0 log1 = Some ((n, err), w', log')"
      by (auto simp: Write_def)
    from Write_loop_size_aux[OF this] Write_repair_size[OF r] show ?thesis by simp
  qed
qed

lemma Writes_size:
  "apply_ops d (map WriteOp ps) w log = Some (rs, w', log') \<Longrightarrow>
     size' w' = size' w + of_nat (sum_list (map fst rs))"
proof (induction ps arbitrary: w log rs)
  case Nil
  then show ?case by simp
next
  case (Cons p ps)
  from Cons.prems obtain n err w1 log1 rs1 where
    s: "Write d w p log = Some ((n, err), w1, log1)"
    and t: "apply_ops d (map WriteOp ps) w1 log1 = Some (rs1, w', log')"
    and rs: "rs = (n, err) # rs1"
    by (auto split: option.splits prod.splits)
  from Write_size[OF s] Cons.IH[OF t] rs show ?case by simp
qed

lemma sint_add_of_nat:
  fixes a :: int64
  assumes "0 \<le> sint a" "sint a + int n < 2 ^ 63"
  shows "sint (a + of_nat n) = sint a + int n"
proof -
  from assms have n: "int n < 2 ^ 63" by simp
  have "sint (of_nat n :: int64) = int n"
    using n by (simp add: signed_of_nat signed_take_bit_int_eq_self)
  then show ?thesis
    using assms by (simp add: sint_word_ariths signed_take_bit_int_eq_self)
qed

text \<open>
  Claim C8. After any sequence of \<open>Write\<close> calls that have returned, \<open>Size()\<close> is
  the size before plus the byte counts the calls returned, whether or not a call
  returned an error too; the counter is an \<open>int64\<close>, and the sum is the sum of
  integers as long as it stays below \<open>2 ^ 63\<close>. The size of a writer just opened is
  the sum of the sizes of its resumed parts.
\<close>

theorem Size_accounting:
  assumes "apply_ops d (map WriteOp ps) w log = Some (rs, w', log')"
  shows "Size_of w' = Size_of w + of_nat (sum_list (map fst rs)) \<and>
         (0 \<le> sint (Size_of w) \<and> sint (Size_of w) + int (sum_list (map fst rs)) < 2 ^ 63 \<longrightarrow>
            sint (Size_of w') = sint (Size_of w) + int (sum_list (map fst rs))) \<and>
         Size_of (newWriter k m ps0) = foldl (\<lambda>size part. size + Size part) 0 ps0"
  using Writes_size[OF assms] by (auto simp: Size_of_def sint_add_of_nat newWriter_def)

lemma failed_flush_write:
  "apply_ops (driver10 upload_fails_store) (map WriteOp [bytes25]) fresh_writer [] =
     Some ([(20, Some (Err ''500 Internal Server Error''))],
           fresh_writer\<lparr>readyPart := replicate 10 0, pendingPart := replicate 10 0, size' := 20\<rparr>,
           [UploadPartCall ''b'' ''k'' 7 1 (replicate 10 0)])"
  by (simp add: Write_def Write_repair_def fresh_writer_def newWriter_def bytes25_def
      driver10_def upload_fails_store_def ok_store_def Write_loop.simps Write_body_def
      flushPart_def UploadPart_def Let_def)

theorem Size_accounting_witness:
  "apply_ops (driver10 upload_fails_store) (map WriteOp [bytes25]) fresh_writer [] =
     Some ([(20, Some (Err ''500 Internal Server Error''))],
           fresh_writer\<lparr>readyPart := replicate 10 0, pendingPart := replicate 10 0, size' := 20\<rparr>,
           [UploadPartCall ''b'' ''k'' 7 1 (replicate 10 0)]) \<and>
   Size_of fresh_writer = 0 \<and>
   Size_of (fresh_writer\<lparr>readyPart := replicate 10 0, pendingPart := replicate 10 0, size' := 20\<rparr>) = 20 \<and>
   sint (Size_of (fresh_writer\<lparr>readyPart := replicate 10 0, pendingPart := replicate 10 0, size' := 20\<rparr>)) = 20"
  using Size_accounting[OF failed_flush_write] failed_flush_write
  by (simp add: Size_of_def fresh_writer_def newWriter_def)


section \<open>Chunking\<close>

lemma uploads_okD:
  "uploads_ok client \<Longrightarrow> \<exists>etag. do_UploadPart client log = Inr etag \<and> etag \<noteq> []"
  unfolding uploads_ok_def by (erule_tac x = log in allE) (auto split: sum.splits)

lemma UploadPart_ok:
  assumes "uploads_ok client"
  shows "\<exists>etag. etag \<noteq> [] \<and> UploadPart client bucket object uploadId partNumber content log =
     (Inr \<lparr>Part_PartNumber = partNumber, Part_Etag = etag, Part_Size = ContentLength content\<rparr>,
      log @ [UploadPartCall bucket object uploadId partNumber (reader_bytes content)])"
  using uploads_okD[OF assms, of "log @ [UploadPartCall bucket object uploadId partNumber (reader_bytes content)]"]
  by (auto simp: UploadPart_def Let_def)

lemma UploadPart_ok_eq:
  assumes "uploads_ok client"
  shows "UploadPart client bucket object uploadId partNumber content log =
     (Inr \<lparr>Part_PartNumber = partNumber,
           Part_Etag = projr (do_UploadPart client
              (log @ [UploadPartCall bucket object uploadId partNumber (reader_bytes content)])),
           Part_Size = ContentLength content\<rparr>,
      log @ [UploadPartCall bucket object uploadId partNumber (reader_bytes content)])"
  using uploads_okD[OF assms, of "log @ [UploadPartCall bucket object uploadId partNumber (reader_bytes content)]"]
  by (auto simp: UploadPart_def Let_def)

lemma feed_Nil: "feed d w log [] = (w, log)"
  by (simp add: feed_def)

lemma feed_Cons:
  "feed d w log (b # bs) =
     feed d (fst (feed_byte d (w, log) b)) (snd (feed_byte d (w, log) b)) bs"
  by (simp add: feed_def)

lemma feed_append:
  "feed d w log (as @ bs) = feed d (fst (feed d w log as)) (snd (feed d w log as)) bs"
  by (simp add: feed_def)

lemma feed_ready:
  "int (length (readyPart w) + length bs) \<le> sint (ChunkSize d) \<Longrightarrow>
     feed d w log bs = (w\<lparr>readyPart := readyPart w @ bs\<rparr>, log)"
proof (induction bs arbitrary: w)
  case Nil
  then show ?case by (simp add: feed_def)
next
  case (Cons b bs)
  from Cons.prems have 1: "int (length (readyPart w)) < sint (ChunkSize d)" by simp
  from Cons.prems have 2: "int (length (readyPart (w\<lparr>readyPart := readyPart w @ [b]\<rparr>)) + length bs)
      \<le> sint (ChunkSize d)" by simp
  have "feed d w log (b # bs) = feed d (w\<lparr>readyPart := readyPart w @ [b]\<rparr>) log bs"
    using 1 by (simp add: feed_def feed_byte_def)
  with Cons.IH[OF 2] show ?case by simp
qed

lemma feed_pending:
  "sint (ChunkSize d) \<le> int (length (readyPart w)) \<Longrightarrow>
   int (length (pendingPart w) + length bs) < sint (ChunkSize d) \<Longrightarrow>
     feed d w log bs = (w\<lparr>pendingPart := pendingPart w @ bs\<rparr>, log)"
proof (induction bs arbitrary: w)
  case Nil
  then show ?case by (simp add: feed_def)
next
  case (Cons b bs)
  let ?w = "w\<lparr>pendingPart := pendingPart w @ [b]\<rparr>"
  from Cons.prems have 1: "\<not> int (length (readyPart w)) < sint (ChunkSize d)"
    and 2: "int (length (pendingPart w)) + 1 < sint (ChunkSize d)" by simp_all
  from Cons.prems have 3: "sint (ChunkSize d) \<le> int (length (readyPart ?w))"
    and 4: "int (length (pendingPart ?w) + length bs) < sint (ChunkSize d)" by simp_all
  have "feed d w log (b # bs) = feed d ?w log bs"
    using 1 2 by (simp add: feed_def feed_byte_def)
  with Cons.IH[OF 3 4] show ?case by simp
qed

lemma feed_flush:
  assumes "sint (ChunkSize d) \<le> int (length (readyPart w))"
    and "int (length (pendingPart w) + length bs) = sint (ChunkSize d)"
    and "bs \<noteq> []"
  shows "feed d w log bs =
     (fst (snd (flushPart d (w\<lparr>pendingPart := pendingPart w @ bs\<rparr>) log)),
      snd (snd (flushPart d (w\<lparr>pendingPart := pendingPart w @ bs\<rparr>) log)))"
proof -
  let ?w = "w\<lparr>pendingPart := pendingPart w @ butlast bs\<rparr>"
  from assms(3) have bs: "bs = butlast bs @ [last bs]" by simp
  from assms have "int (length (pendingPart w) + length (butlast bs)) < sint (ChunkSize d)"
    by (cases bs) auto
  from feed_pending[OF assms(1) this] have 1: "feed d w log (butlast bs) = (?w, log)" .
  from assms have 2: "\<not> int (length (readyPart ?w)) < sint (ChunkSize d)"
    and 3: "\<not> int (length (pendingPart ?w)) + 1 < sint (ChunkSize d)" by (cases bs; auto)+
  have "feed d w log bs = feed d ?w log [last bs]"
    using feed_append[of d w log "butlast bs" "[last bs]"] bs 1 by simp
  also have "\<dots> = (fst (snd (flushPart d (?w\<lparr>pendingPart := pendingPart ?w @ [last bs]\<rparr>) log)),
      snd (snd (flushPart d (?w\<lparr>pendingPart := pendingPart ?w @ [last bs]\<rparr>) log)))"
    using 2 3 by (simp add: feed_def feed_byte_def split: prod.splits)
  also have "?w\<lparr>pendingPart := pendingPart ?w @ [last bs]\<rparr> = w\<lparr>pendingPart := pendingPart w @ bs\<rparr>"
    using assms(3) by simp
  finally show ?thesis .
qed

lemma flushPart_ok:
  assumes "uploads_ok (Client d)"
  shows "fst (flushPart d w log) = None"
proof -
  let ?w1 = "if int (length (pendingPart w)) < sint (ChunkSize d)
             then w\<lparr>readyPart := readyPart w @ pendingPart w, pendingPart := []\<rparr> else w"
  from UploadPart_ok[OF assms, of "Bucket d" "key ?w1" "Multi_UploadId (multi ?w1)"
      "of_nat (length (parts ?w1) + 1)" "BytesReader (readyPart ?w1)" log]
  obtain etag where "UploadPart (Client d) (Bucket d) (key ?w1) (Multi_UploadId (multi ?w1))
      (of_nat (length (parts ?w1) + 1)) (BytesReader (readyPart ?w1)) log =
     (Inr \<lparr>Part_PartNumber = of_nat (length (parts ?w1) + 1), Part_Etag = etag,
           Part_Size = ContentLength (BytesReader (readyPart ?w1))\<rparr>,
      log @ [UploadPartCall (Bucket d) (key ?w1) (Multi_UploadId (multi ?w1))
              (of_nat (length (parts ?w1) + 1)) (reader_bytes (BytesReader (readyPart ?w1)))])"
    by blast
  then show ?thesis
    by (simp add: flushPart_def Let_def)
qed

lemma flushPart_pending:
  "fst (flushPart d w log) = None \<Longrightarrow> pendingPart (fst (snd (flushPart d w log))) = []"
  by (auto simp: flushPart_def Let_def split: if_splits prod.splits sum.splits)

lemma flushPart_size_update:
  "flushPart d (w\<lparr>size' := x\<rparr>) log =
     (fst (flushPart d w log), (fst (snd (flushPart d w log)))\<lparr>size' := x\<rparr>, snd (snd (flushPart d w log)))"
  by (simp add: flushPart_def Let_def split: prod.splits sum.splits)

text \<open>
  One pass of the loop body, started with a pending part short of the chunk size on a
  store that accepts every part, consumes \<open>k > 0\<close> bytes and leaves the writer that
  feeding these \<open>k\<close> bytes leaves.
\<close>

lemma Write_body_feed:
  assumes c: "0 < sint (ChunkSize d)" and ok: "uploads_ok (Client d)"
    and pend: "int (length (pendingPart w)) < sint (ChunkSize d)" and p: "p \<noteq> []"
  shows "\<exists>k. 0 < k \<and> k \<le> length p \<and>
     Write_body d w p n log =
       Inr (fst (feed d w log (take k p)), drop k p, n + k, snd (feed d w log (take k p))) \<and>
     int (length (pendingPart (fst (feed d w log (take k p))))) < sint (ChunkSize d)"
proof -
  let ?C = "sint (ChunkSize d)"
  define k1 where "k1 = (if int (length (readyPart w)) < ?C
                         then min (nat (?C - int (length (readyPart w)))) (length p) else 0)"
  define w1 where "w1 = w\<lparr>readyPart := readyPart w @ take k1 p\<rparr>"
  define nb where "nb = nat (?C - int (length (pendingPart w)))"
  have nb: "0 < nb" "int nb = ?C - int (length (pendingPart w))"
    using pend by (simp_all add: nb_def)
  have pw1: "pendingPart w1 = pendingPart w" by (simp add: w1_def)
  have k1le: "k1 \<le> length p" by (simp add: k1_def)
  have f1: "feed d w log (take k1 p) = (w1, log)"
  proof (cases "int (length (readyPart w)) < ?C")
    case True
    then have "int (length (readyPart w) + length (take k1 p)) \<le> ?C"
      by (simp add: k1_def)
    from feed_ready[OF this] show ?thesis by (simp add: w1_def)
  next
    case False
    then show ?thesis by (simp add: k1_def w1_def feed_Nil)
  qed
  have full: "?C \<le> int (length (readyPart w1))" if "k1 < length p"
    using that by (auto simp: k1_def w1_def min_def split: if_splits)
  have k1pos: "0 < k1" if "int (length (readyPart w)) < ?C"
    using that p by (simp add: k1_def)
  consider (full) "k1 = 0" "\<not> int (length (readyPart w)) < ?C"
    | (fill) "k1 = nat (?C - int (length (readyPart w)))" "int (length (readyPart w)) < ?C"
        "nat (?C - int (length (readyPart w))) \<le> length p"
    | (part) "k1 = length p" "int (length (readyPart w)) < ?C"
        "\<not> nat (?C - int (length (readyPart w))) \<le> length p"
    by (cases "int (length (readyPart w)) < ?C";
        cases "nat (?C - int (length (readyPart w))) \<le> length p") (auto simp: k1_def)
  note k1_cases = this
  have fill_int: "?C - int (length (readyPart w)) \<le> int (length p)"
    if "nat (?C - int (length (readyPart w))) \<le> length p"
    using that by linarith
  have part_int: "\<not> ?C - int (length (readyPart w)) \<le> int (length p)"
    if "\<not> nat (?C - int (length (readyPart w))) \<le> length p"
    using that by linarith
  have wb_flush: "Write_body d w p n log = Inr (w3, drop (k1 + nb) p, n + (k1 + nb), log3)"
    if "nb \<le> length (drop k1 p)"
      and "flushPart d (w1\<lparr>pendingPart := pendingPart w1 @ take nb (drop k1 p)\<rparr>) log = (None, w3, log3)"
    for w3 log3
  proof (cases rule: k1_cases)
    case full
    from that(1) nb(2) full(1) have "?C - int (length (pendingPart w)) \<le> int (length p)" by simp
    with full pend that[unfolded w1_def nb_def full(1)] show ?thesis
      unfolding nb_def by (simp add: Write_body_def Let_def)
  next
    case fill
    from that(1) nb(2) fill have
      "?C - int (length (pendingPart w)) \<le> int (length (drop (nat (?C - int (length (readyPart w)))) p))"
      by simp
    with fill fill_int[OF fill(3)] pend that[unfolded w1_def nb_def fill(1)] show ?thesis
      unfolding nb_def by (simp add: Write_body_def Let_def add.commute del: length_drop)
  next
    case part
    with that(1) nb(1) show ?thesis by simp
  qed
  have wb_keep: "Write_body d w p n log =
      Inr (w1\<lparr>pendingPart := pendingPart w1 @ drop k1 p\<rparr>, [], n + length p, log)"
    if "\<not> nb \<le> length (drop k1 p)"
  proof (cases rule: k1_cases)
    case full
    from that nb(2) full(1) have "\<not> ?C - int (length (pendingPart w)) \<le> int (length p)" by simp
    with full pend show ?thesis
      unfolding w1_def by (simp add: Write_body_def Let_def)
  next
    case fill
    from that nb(2) fill have
      "\<not> ?C - int (length (pendingPart w)) \<le> int (length (drop (nat (?C - int (length (readyPart w)))) p))"
      by simp
    moreover from fill(3) have
      "n + nat (?C - int (length (readyPart w))) + length (drop (nat (?C - int (length (readyPart w)))) p) =
       n + length p" by simp
    ultimately show ?thesis using fill fill_int[OF fill(3)] pend
      unfolding w1_def by (simp add: Write_body_def Let_def del: length_drop)
  next
    case part
    with pend part_int[OF part(3)] show ?thesis
      unfolding w1_def by (simp add: Write_body_def Let_def)
  qed
  show ?thesis
  proof (cases "nb \<le> length (drop k1 p)")
    case True
    let ?bs = "take nb (drop k1 p)"
    let ?w2 = "w1\<lparr>pendingPart := pendingPart w1 @ ?bs\<rparr>"
    let ?k = "k1 + nb"
    from True have len: "length ?bs = nb" by simp
    from True nb(1) have "k1 < length p" by simp
    note full1 = full[OF this]
    from len nb pw1 have eq: "int (length (pendingPart w1) + length ?bs) = ?C" by simp
    from len nb(1) have ne: "?bs \<noteq> []" by auto
    have f2: "feed d w1 log ?bs = (fst (snd (flushPart d ?w2 log)), snd (snd (flushPart d ?w2 log)))"
      by (rule feed_flush[OF full1 eq ne])
    have ok': "fst (flushPart d ?w2 log) = None" by (rule flushPart_ok[OF ok])
    have tk: "take ?k p = take k1 p @ ?bs" by (simp add: take_add)
    have feedk: "feed d w log (take ?k p) =
        (fst (snd (flushPart d ?w2 log)), snd (snd (flushPart d ?w2 log)))"
      using feed_append[of d w log "take k1 p" ?bs] f1 f2 tk by simp
    have wb: "Write_body d w p n log =
        Inr (fst (snd (flushPart d ?w2 log)), drop ?k p, n + ?k, snd (snd (flushPart d ?w2 log)))"
      using wb_flush[OF True, of "fst (snd (flushPart d ?w2 log))" "snd (snd (flushPart d ?w2 log))"] ok'
      by (cases "flushPart d ?w2 log") simp
    from flushPart_pending[OF ok'] c
    have "int (length (pendingPart (fst (snd (flushPart d ?w2 log))))) < ?C" by simp
    moreover from True k1le have "?k \<le> length p" by simp
    moreover from nb(1) have "0 < ?k" by simp
    ultimately show ?thesis using wb feedk by (intro exI[of _ ?k]) simp
  next
    case False
    let ?bs = "drop k1 p"
    let ?w2 = "w1\<lparr>pendingPart := pendingPart w1 @ ?bs\<rparr>"
    have f2: "feed d w1 log ?bs = (?w2, log)"
    proof (cases "k1 < length p")
      case True
      from False nb pw1 have "int (length (pendingPart w1) + length ?bs) < ?C" by simp
      from feed_pending[OF full[OF True] this] show ?thesis .
    next
      case False
      then show ?thesis by (simp add: feed_Nil)
    qed
    have "p = take k1 p @ ?bs" by simp
    then have "feed d w log p = feed d w1 log ?bs"
      using feed_append[of d w log "take k1 p" ?bs] f1 by simp
    with f2 have feedp: "feed d w log p = (?w2, log)" by simp
    from wb_keep[OF False] have wb: "Write_body d w p n log = Inr (?w2, [], n + length p, log)" .
    from False nb pw1 have "int (length (pendingPart ?w2)) < ?C" by simp
    with wb feedp p show ?thesis by (intro exI[of _ "length p"]) simp
  qed
qed

lemma feed_size:
  "size' (fst (feed d w log bs)) = size' w"
proof (induction bs arbitrary: w log rule: rev_induct)
  case Nil
  then show ?case by (simp add: feed_def)
next
  case (snoc b bs)
  obtain w1 log1 where f: "feed d w log bs = (w1, log1)" by (cases "feed d w log bs") auto
  with snoc[of w log] have s: "size' w1 = size' w" by simp
  obtain e w2 log2 where fl: "flushPart d (w1\<lparr>pendingPart := pendingPart w1 @ [b]\<rparr>) log1 = (e, w2, log2)"
    by (cases "flushPart d (w1\<lparr>pendingPart := pendingPart w1 @ [b]\<rparr>) log1") auto
  from flushPart_size[OF fl] have "size' w2 = size' w1" by simp
  with f s fl show ?case
    by (simp add: feed_def feed_byte_def)
qed

text \<open>
  So the loop returns, having consumed all of \<open>p\<close>: it terminates by induction on
  the number of bytes left.
\<close>

lemma Write_loop_feed:
  assumes c: "0 < sint (ChunkSize d)" and ok: "uploads_ok (Client d)"
  shows "int (length (pendingPart w)) < sint (ChunkSize d) \<Longrightarrow>
     Write_loop d w p n log =
       Some ((n + length p, None),
             (fst (feed d w log p))\<lparr>size' := size' w + of_nat (n + length p)\<rparr>,
             snd (feed d w log p))"
proof (induction "length p" arbitrary: w p n log rule: less_induct)
  case less
  show ?case
  proof (cases "p = []")
    case True
    then show ?thesis by (simp add: Write_loop.simps feed_Nil)
  next
    case False
    from Write_body_feed[OF c ok less.prems False, of n log] obtain k where k:
      "0 < k" "k \<le> length p"
      "Write_body d w p n log =
         Inr (fst (feed d w log (take k p)), drop k p, n + k, snd (feed d w log (take k p)))"
      "int (length (pendingPart (fst (feed d w log (take k p))))) < sint (ChunkSize d)"
      by blast
    let ?w1 = "fst (feed d w log (take k p))" and ?log1 = "snd (feed d w log (take k p))"
    from k(1) False have "length (drop k p) < length p" by simp
    from less.hyps[OF this k(4), of "n + k" ?log1]
    have IH: "Write_loop d ?w1 (drop k p) (n + k) ?log1 =
       Some ((n + k + length (drop k p), None),
             (fst (feed d ?w1 ?log1 (drop k p)))\<lparr>size' := size' ?w1 + of_nat (n + k + length (drop k p))\<rparr>,
             snd (feed d ?w1 ?log1 (drop k p)))" .
    have "feed d w log p = feed d ?w1 ?log1 (drop k p)"
      using feed_append[of d w log "take k p" "drop k p"] by simp
    moreover from k(2) have "n + k + length (drop k p) = n + length p" by simp
    moreover have "Write_loop d w p n log = Write_loop d ?w1 (drop k p) (n + k) ?log1"
      using False k(3) by (subst Write_loop.simps) simp
    ultimately show ?thesis using IH feed_size[of d w log "take k p"] by simp
  qed
qed

lemma sint_of_nat_chunk:
  assumes "int n = sint (x :: int64)"
  shows "sint (of_nat n :: int64) = sint x"
proof -
  have "(of_nat n :: int64) = of_int (int n)" by simp
  also have "\<dots> = of_int (sint x)" using assms by simp
  also have "\<dots> = x" by simp
  finally show ?thesis by simp
qed

lemma feed_byte_steady:
  assumes st: "steady d w" and ok: "uploads_ok (Client d)"
    and m: "MinChunkSize d \<le> sint (ChunkSize d)"
  shows "steady d (fst (feed_byte d (w, log) b))"
proof (cases "int (length (readyPart w)) < sint (ChunkSize d)")
  case True
  with st show ?thesis by (simp add: feed_byte_def steady_def)
next
  case False
  with st have r: "int (length (readyPart w)) = sint (ChunkSize d)" by (simp add: steady_def)
  show ?thesis
  proof (cases "int (length (pendingPart w)) + 1 < sint (ChunkSize d)")
    case True
    with st False show ?thesis by (simp add: feed_byte_def steady_def)
  next
    case full: False
    from sint_of_nat_chunk[OF r] m
    have "MinChunkSize d \<le> sint (of_nat (length (readyPart w)) :: int64)" by simp
    with st False full show ?thesis
      by (simp add: feed_byte_def steady_def flushPart_def UploadPart_ok_eq[OF ok] Let_def)
  qed
qed

lemma feed_steady:
  assumes ok: "uploads_ok (Client d)" and m: "MinChunkSize d \<le> sint (ChunkSize d)"
  shows "steady d w \<Longrightarrow> steady d (fst (feed d w log bs))"
proof (induction bs arbitrary: w log)
  case Nil
  then show ?case by (simp add: feed_Nil)
next
  case (Cons b bs)
  from feed_byte_steady[OF Cons.prems ok m] have "steady d (fst (feed_byte d (w, log) b))" .
  from Cons.IH[OF this] show ?case by (simp add: feed_Cons)
qed

lemma feed_byte_size_update:
  "feed_byte d (w\<lparr>size' := x\<rparr>, log) b =
     ((fst (feed_byte d (w, log) b))\<lparr>size' := x\<rparr>, snd (feed_byte d (w, log) b))"
proof -
  let ?w = "w\<lparr>pendingPart := pendingPart w @ [b]\<rparr>"
  have "(w\<lparr>size' := x\<rparr>)\<lparr>pendingPart := pendingPart (w\<lparr>size' := x\<rparr>) @ [b]\<rparr> = ?w\<lparr>size' := x\<rparr>"
    by simp
  then have "flushPart d ((w\<lparr>size' := x\<rparr>)\<lparr>pendingPart := pendingPart (w\<lparr>size' := x\<rparr>) @ [b]\<rparr>) log =
      (fst (flushPart d ?w log), (fst (snd (flushPart d ?w log)))\<lparr>size' := x\<rparr>,
       snd (snd (flushPart d ?w log)))"
    by (simp only: flushPart_size_update)
  then show ?thesis
    by (simp add: feed_byte_def split: prod.splits)
qed

lemma feed_size_update:
  "feed d (w\<lparr>size' := x\<rparr>) log bs = ((fst (feed d w log bs))\<lparr>size' := x\<rparr>, snd (feed d w log bs))"
proof (induction bs arbitrary: w log)
  case Nil
  then show ?case by (simp add: feed_Nil)
next
  case (Cons b bs)
  show ?case
    by (simp add: feed_Cons feed_byte_size_update Cons.IH)
qed

lemma steady_size_update: "steady d (w\<lparr>size' := x\<rparr>) = steady d w"
  by (simp add: steady_def)

lemma Write_steady:
  assumes c: "0 < sint (ChunkSize d)" and ok: "uploads_ok (Client d)" and st: "steady d w"
  shows "Write d w p log =
     Some ((length p, None),
           (fst (feed d w log p))\<lparr>size' := size' w + of_nat (length p)\<rparr>,
           snd (feed d w log p))"
proof -
  from st have "Write_repair d w log = (None, w, log)"
    by (auto simp: Write_repair_def steady_def)
  moreover from st have "int (length (pendingPart w)) < sint (ChunkSize d)"
    by (simp add: steady_def)
  note Write_loop_feed[OF c ok this, of p 0 log]
  ultimately show ?thesis using st by (simp add: Write_def steady_def)
qed

lemma Writes_steady:
  assumes c: "0 < sint (ChunkSize d)" and ok: "uploads_ok (Client d)"
    and m: "MinChunkSize d \<le> sint (ChunkSize d)"
  shows "steady d w \<Longrightarrow>
     apply_ops d (map WriteOp ps) w log =
       Some (map (\<lambda>p. (length p, None)) ps,
             (fst (feed d w log (concat ps)))\<lparr>size' := size' w + of_nat (length (concat ps))\<rparr>,
             snd (feed d w log (concat ps)))"
proof (induction ps arbitrary: w log)
  case Nil
  then show ?case by (simp add: feed_Nil)
next
  case (Cons p ps)
  let ?w1 = "(fst (feed d w log p))\<lparr>size' := size' w + of_nat (length p)\<rparr>"
  let ?log1 = "snd (feed d w log p)"
  have w: "Write d w p log = Some ((length p, None), ?w1, ?log1)"
    by (rule Write_steady[OF c ok Cons.prems])
  from feed_steady[OF ok m Cons.prems] have "steady d ?w1" by (simp add: steady_size_update)
  note IH = Cons.IH[OF this, of ?log1]
  have "feed d w log (concat (p # ps)) = feed d (fst (feed d w log p)) ?log1 (concat ps)"
    by (simp add: feed_append)
  with w IH show ?case
    by (simp add: feed_size_update add.assoc)
qed

lemma apply_ops_append:
  "apply_ops d (xs @ ys) w log =
     (case apply_ops d xs w log of
        None \<Rightarrow> None
      | Some (rs, w', log') \<Rightarrow>
          (case apply_ops d ys w' log' of
             None \<Rightarrow> None
           | Some (rs', w'', log'') \<Rightarrow> Some (rs @ rs', w'', log'')))"
  by (induction xs arbitrary: w log) (auto split: option.splits prod.splits)

lemma newWriter_steady:
  "0 < sint (ChunkSize d) \<Longrightarrow> steady d (newWriter k m [])"
  by (simp add: steady_def newWriter_def)

lemma committed_sizes_steady:
  assumes c: "0 < sint (ChunkSize d)" and ok: "uploads_ok (Client d)"
    and m: "MinChunkSize d \<le> sint (ChunkSize d)" and st: "steady d w"
  shows "committed_sizes d w ps log =
     Some (map (\<lambda>part. sint (Size part))
       (parts (fst (snd (Commit d
          ((fst (feed d w log (concat ps)))\<lparr>size' := size' w + of_nat (length (concat ps))\<rparr>)
          (snd (feed d w log (concat ps))))))))"
  by (simp add: committed_sizes_def apply_ops_append Writes_steady[OF c ok m st] split: prod.splits)

text \<open>
  Claim C3. With a positive chunk size not below the floor and a store that accepts
  every part, a new writer (no resumed session) that is written the same bytes in
  different splits into \<open>Write\<close> calls and then committed ends with the same
  sequence of part sizes, and every one of these calls returns.
\<close>

theorem chunking_ignores_call_boundaries:
  assumes "0 < sint (ChunkSize d)" and "MinChunkSize d \<le> sint (ChunkSize d)"
    and "uploads_ok (Client d)" and "concat ps = concat qs"
  shows "committed_sizes d (newWriter k m []) ps log = committed_sizes d (newWriter k m []) qs log \<and>
         committed_sizes d (newWriter k m []) ps log \<noteq> None"
  using assms(4)
  by (simp add: committed_sizes_steady[OF assms(1) assms(3) assms(2) newWriter_steady[OF assms(1)]])

lemma ok_store_uploads_ok: "uploads_ok (Client (driver10 ok_store))"
  by (simp add: uploads_ok_def driver10_def ok_store_def)

lemma scenario_A_run:
  "committed_sizes (driver10 ok_store) fresh_writer [bytes25] [] = Some [10, 15]"
  by (simp add: committed_sizes_def Write_def Write_repair_def fresh_writer_def newWriter_def bytes25_def
      driver10_def ok_store_def Write_loop.simps Write_body_def
      flushPart_def UploadPart_def Let_def Commit_def CompleteMultiUpload_def TranslateToUploadParts_def)

theorem chunking_ignores_call_boundaries_witness:
  "committed_sizes (driver10 ok_store) fresh_writer [replicate 12 0, replicate 13 0] [] = Some [10, 15] \<and>
   committed_sizes (driver10 ok_store) fresh_writer [bytes25] [] = Some [10, 15]"
proof -
  have c: "0 < sint (ChunkSize (driver10 ok_store))"
    and m: "MinChunkSize (driver10 ok_store) \<le> sint (ChunkSize (driver10 ok_store))"
    by (simp_all add: driver10_def)
  have s: "concat [replicate 12 0, replicate 13 (0 :: byte)] = concat [bytes25]"
    by (simp add: bytes25_def flip: replicate_add)
  from chunking_ignores_call_boundaries[OF c m ok_store_uploads_ok s,
      of "''k''" "\<lparr>Multi_Key = ''k'', Multi_UploadId = 7\<rparr>" "[]"] scenario_A_run
  show ?thesis by (simp add: fresh_writer_def)
qed

text \<open>
  Claim C2, as amended. With chunk size 10 and floor 10, a new writer that is written
  25 bytes in one call and then committed, on a store that accepts every part, has the
  part sizes \<open>[10, 15]\<close>: the five bytes left in the pending part are merged into
  the ready part by the flush of \<open>Commit\<close>.
\<close>

theorem scenario_A_sizes:
  assumes "ChunkSize d = 10" and "MinChunkSize d = 10" and "uploads_ok (Client d)"
    and "length p = 25"
  shows "committed_sizes d (newWriter k m []) [p] log = Some [10, 15]"
  using assms
  by (simp add: committed_sizes_def Write_def Write_repair_def newWriter_def Write_loop.simps
      Write_body_def flushPart_def UploadPart_ok_eq Let_def Commit_def CompleteMultiUpload_def
      AbortMultiUpload_def TranslateToUploadParts_def split: option.splits)

text \<open>
  Claim C2 as stated fails: the part sizes are \<open>[10, 15]\<close>, not \<open>[10, 10, 5]\<close>.
\<close>

theorem scenario_A_sizes_counterexample:
  "committed_sizes (driver10 ok_store) fresh_writer [bytes25] [] = Some [10, 15] \<and>
   committed_sizes (driver10 ok_store) fresh_writer [bytes25] [] \<noteq> Some [10, 10, 5]"
  by (simp add: scenario_A_run)

theorem scenario_A_sizes_witness:
  "committed_sizes (driver10 ok_store) (newWriter ''k'' \<lparr>Multi_Key = ''k'', Multi_UploadId = 7\<rparr> [])
     [bytes25] [] = Some [10, 15]"
proof -
  have c: "ChunkSize (driver10 ok_store) = 10" and m: "MinChunkSize (driver10 ok_store) = 10"
    by (simp_all add: driver10_def)
  have l: "length bytes25 = 25" by (simp add: bytes25_def)
  from scenario_A_sizes[OF c m ok_store_uploads_ok l] show ?thesis .
qed

end
